theory Spec2Isabelle
  imports Complex_Main "HOL-Library.AList"
begin

section \<open>Data model of the hierarchy visual (src/hierarchy/src/visual.ts)\<close>

text \<open>
  JavaScript numbers are modelled as \<^typ>\<open>real\<close> (exact arithmetic), strings as
  \<^typ>\<open>string\<close>, \<open>string | null\<close> as \<^typ>\<open>string option\<close>, a \<open>Set<string>\<close> whose
  iteration order is never observed as \<^typ>\<open>string set\<close>, and a \<open>Set<string>\<close> that is
  iterated as a duplicate-free list in insertion order. A \<open>Map<string, string[]>\<close> is an
  association list in insertion order. The opaque host token \<open>ISelectionId\<close> is a natural number.
\<close>

datatype scalar = Num real | Str string

record NodeRow =
  rowId :: string
  parentId :: "string option"
  label :: string
  rvalue :: "scalar option"
  sparkline :: "scalar option"
  tooltip :: "scalar option"
  dropdown :: "string option"
  selectionId :: nat

record LayoutNode =
  lnId :: string
  lnLabel :: string
  lnValue :: "scalar option"
  lnSparkline :: "scalar option"
  lnTooltip :: "scalar option"
  x :: real
  y :: real
  lnSelectionId :: nat
  depth :: int
  lnParent :: "string option"
  lnChildren :: "string list option"

datatype ViewMode = TreeView | TableView

text \<open>The two messages of \<open>clearAndMessage\<close>, by localisation key: \<open>Message.NoMatches\<close> and
  \<open>Message.InvalidHierarchy\<close>.\<close>

datatype Message = NoMatches | InvalidHierarchy

type_synonym ChildrenMap = "(string \<times> string list) list"

record Visual =
  allRows :: "NodeRow list"
  childrenMap :: ChildrenMap
  collapsedIds :: "string set"
  searchQuery :: string
  hierarchyFilterValue :: "string option"
  parentFilterValue :: "string option"
  dropdownFilterValue :: "string option"
  nodes :: "LayoutNode list"
  links :: "(LayoutNode \<times> LayoutNode) list"
  tableRows :: "LayoutNode list"
  message :: "Message option"
  tx :: real
  ty :: real
  scale :: real
  lastViewportW :: real
  lastViewportH :: real
  viewMode :: ViewMode
  cardWidth :: real
  cardHeight :: real
  orientationLR :: bool
  doubleClickZoomPercent :: real

subsection \<open>JavaScript string helpers\<close>

text \<open>Strings are byte strings; \<open>trim\<close> and \<open>toLowerCase\<close> are modelled on ASCII (blank, tab,
  line feed, vertical tab, form feed, carriage return; the letters A to Z).

  Truthiness of a \<open>string | null\<close>: \<open>null\<close> and the empty string are falsy.\<close>

definition truthy :: "string option \<Rightarrow> bool" where
  "truthy p = (case p of None \<Rightarrow> False | Some s \<Rightarrow> s \<noteq> [])"

definition isSpace :: "char \<Rightarrow> bool" where
  "isSpace c = (c \<in> set [CHR '' '', CHR 0x09, CHR 0x0A, CHR 0x0B, CHR 0x0C, CHR 0x0D])"

definition trim :: "string \<Rightarrow> string" where
  "trim s = rev (dropWhile isSpace (rev (dropWhile isSpace s)))"

definition toLowerChar :: "char \<Rightarrow> char" where
  "toLowerChar c =
     (case map_of (zip ''ABCDEFGHIJKLMNOPQRSTUVWXYZ'' ''abcdefghijklmnopqrstuvwxyz'') c of
        None \<Rightarrow> c | Some l \<Rightarrow> l)"

definition toLowerCase :: "string \<Rightarrow> string" where
  "toLowerCase s = map toLowerChar s"

fun startsWith :: "string \<Rightarrow> string \<Rightarrow> bool" where
  "startsWith s [] = True"
| "startsWith [] (q # qs) = False"
| "startsWith (c # cs) (q # qs) = (c = q \<and> startsWith cs qs)"

fun str_includes :: "string \<Rightarrow> string \<Rightarrow> bool" where
  "str_includes [] q = (q = [])"
| "str_includes (c # cs) q = (startsWith (c # cs) q \<or> str_includes cs q)"

text \<open>Adding to a \<open>Set\<close> that is later iterated: insertion order, no duplicates.\<close>

definition setAdd :: "string list \<Rightarrow> string \<Rightarrow> string list" where
  "setAdd xs v = (if v \<in> set xs then xs else xs @ [v])"

subsection \<open>Children index\<close>

text \<open>\<open>this.childrenMap.get(id) ?? []\<close>\<close>

definition cm_get :: "ChildrenMap \<Rightarrow> string \<Rightarrow> string list" where
  "cm_get cm k = (case map_of cm k of None \<Rightarrow> [] | Some v \<Rightarrow> v)"

text \<open>\<open>buildChildrenMap\<close>, lines 386-395: rows with a falsy parent are skipped.\<close>

definition buildChildrenMap_step :: "ChildrenMap \<Rightarrow> NodeRow \<Rightarrow> ChildrenMap" where
  "buildChildrenMap_step m r =
     (case parentId r of
        None \<Rightarrow> m
      | Some p \<Rightarrow> if p = [] then m else AList.update p (cm_get m p @ [rowId r]) m)"

definition buildChildrenMap :: "NodeRow list \<Rightarrow> ChildrenMap" where
  "buildChildrenMap rows = foldl buildChildrenMap_step [] rows"

text \<open>\<open>new Map(rows.map(r => [r.id, r]))\<close>: for a repeated id the last row wins.\<close>

definition byIdMap :: "NodeRow list \<Rightarrow> (string \<rightharpoonup> NodeRow)" where
  "byIdMap rows = map_of (rev (map (\<lambda>r. (rowId r, r)) rows))"

text \<open>\<open>byId.get(currentId)?.parentId\<close>\<close>

definition parentOf :: "(string \<rightharpoonup> NodeRow) \<Rightarrow> string \<Rightarrow> string option" where
  "parentOf byId i = (case byId i of None \<Rightarrow> None | Some r \<Rightarrow> parentId r)"

section \<open>Filter pipeline\<close>

subsection \<open>Ancestor walks\<close>

text \<open>
  The three ancestor loops of the source follow \<open>parentId\<close> with no visited set, so they do not
  return on a parent cycle. They are partial functions: \<open>None\<close> is the loop that never exits.

  \<open>rootWalk\<close> is the \<open>while (true)\<close> loop of \<open>applySearchFilter\<close> (lines 465-470).
\<close>

partial_function (option) rootWalk :: "(string \<rightharpoonup> NodeRow) \<Rightarrow> string \<Rightarrow> string option" where
  "rootWalk byId currentId =
     (case parentOf byId currentId of
        None \<Rightarrow> Some currentId
      | Some p \<Rightarrow> if p = [] \<or> byId p = None then Some currentId else rootWalk byId p)"

text \<open>The \<open>while (currentId)\<close> loop of \<open>filterToNodeBranch\<close> (lines 510-516) and of
  \<open>filterToDropdownBranch\<close> (lines 587-593).\<close>

partial_function (option) ancestorsLoop ::
  "(string \<rightharpoonup> NodeRow) \<Rightarrow> string \<Rightarrow> string set \<Rightarrow> string set option" where
  "ancestorsLoop byId currentId inc =
     (if currentId = [] then Some inc
      else case parentOf byId currentId of
             None \<Rightarrow> Some (insert currentId inc)
           | Some p \<Rightarrow> if p = [] \<or> byId p = None then Some (insert currentId inc)
                       else ancestorsLoop byId p (insert currentId inc))"

text \<open>The loop of \<open>filterToParentBranch\<close> (lines 542-548): the pinned id is added only when it
  is itself a row.\<close>

partial_function (option) parentAncestorsLoop ::
  "(string \<rightharpoonup> NodeRow) \<Rightarrow> string \<Rightarrow> string set \<Rightarrow> string set option" where
  "parentAncestorsLoop byId currentId inc =
     (if currentId = [] then Some inc
      else case parentOf byId currentId of
             None \<Rightarrow> Some (if byId currentId \<noteq> None then insert currentId inc else inc)
           | Some p \<Rightarrow>
               if p = [] \<or> byId p = None
               then Some (if byId currentId \<noteq> None then insert currentId inc else inc)
               else parentAncestorsLoop byId p
                      (if byId currentId \<noteq> None then insert currentId inc else inc))"

subsection \<open>Descendant walks\<close>

definition cm_universe :: "ChildrenMap \<Rightarrow> string set" where
  "cm_universe cm = (\<Union>kv \<in> set cm. set (snd kv))"

lemma finite_cm_universe: "finite (cm_universe cm)"
  by (simp add: cm_universe_def)

lemma cm_get_universe: "set (cm_get cm k) \<subseteq> cm_universe cm"
proof (cases "map_of cm k")
  case None
  then show ?thesis by (simp add: cm_get_def)
next
  case (Some v)
  then have "(k, v) \<in> set cm" by (rule map_of_SomeD)
  then show ?thesis using Some by (force simp: cm_get_def cm_universe_def)
qed

text \<open>The inner \<open>for (const c of children) if (!include.has(c)) { include.add(c); stack.push(c); }\<close>
  The stack is a list whose head is the top.\<close>

fun pushNew :: "string list \<Rightarrow> string set \<Rightarrow> string list \<Rightarrow> string set \<times> string list" where
  "pushNew [] inc stack = (inc, stack)"
| "pushNew (c # cs) inc stack =
     (if c \<notin> inc then pushNew cs (insert c inc) (c # stack) else pushNew cs inc stack)"

lemma pushNew_inc: "fst (pushNew cs inc stack) = inc \<union> set cs"
  by (induction cs arbitrary: inc stack) auto

lemma pushNew_same:
  "set cs \<subseteq> inc \<Longrightarrow> pushNew cs inc stack = (inc, stack)"
  by (induction cs arbitrary: inc stack) auto

text \<open>The \<open>while (stack.length)\<close> loop shared by \<open>filterToNodeBranch\<close> (lines 519-529),
  \<open>filterToParentBranch\<close> (lines 553-562) and \<open>filterToDropdownBranch\<close> (lines 596-606).\<close>

function descendantsLoop :: "ChildrenMap \<Rightarrow> string list \<Rightarrow> string set \<Rightarrow> string set" where
  "descendantsLoop cm [] inc = inc"
| "descendantsLoop cm (i # stack) inc =
     descendantsLoop cm (snd (pushNew (cm_get cm i) inc stack)) (fst (pushNew (cm_get cm i) inc stack))"
  by pat_completeness auto
termination
proof (relation "measures [\<lambda>(cm, stack, inc). card (cm_universe cm - inc),
                           \<lambda>(cm, stack, inc). length stack]", goal_cases)
  case 1
  then show ?case by simp
next
  case (2 cm i stack inc)
  let ?cs = "cm_get cm i"
  show ?case
  proof (cases "set ?cs \<subseteq> inc")
    case True
    then show ?thesis by (simp add: pushNew_same)
  next
    case False
    have "cm_universe cm - (inc \<union> set ?cs) \<subset> cm_universe cm - inc"
      using False cm_get_universe[of cm i] by auto
    then have "card (cm_universe cm - (inc \<union> set ?cs)) < card (cm_universe cm - inc)"
      by (intro psubset_card_mono) (auto simp: finite_cm_universe)
    then show ?thesis by (simp add: pushNew_inc)
  qed
qed

text \<open>The \<open>while (stack.length)\<close> loop of \<open>computeVisibleRows\<close> (lines 732-742); with an empty
  collapse set it is also the loop of \<open>applySearchFilter\<close> (lines 478-484), which has no
  collapse test. Pushing the children one by one leaves the last child on top.\<close>

function visitLoop :: "ChildrenMap \<Rightarrow> string set \<Rightarrow> string list \<Rightarrow> string set \<Rightarrow> string set" where
  "visitLoop cm collapsed [] visible = visible"
| "visitLoop cm collapsed (i # stack) visible =
     (if i \<in> visible then visitLoop cm collapsed stack visible
      else if i \<in> collapsed then visitLoop cm collapsed stack (insert i visible)
      else visitLoop cm collapsed (rev (cm_get cm i) @ stack) (insert i visible))"
  by pat_completeness auto
termination
proof (relation "measures [\<lambda>(cm, collapsed, stack, visible).
                              card ((cm_universe cm \<union> set stack) - visible),
                           \<lambda>(cm, collapsed, stack, visible). length stack]", goal_cases)
  case 1
  then show ?case by simp
next
  case (2 cm collapsed i stack visible)
  have "card ((cm_universe cm \<union> set stack) - visible)
          \<le> card ((cm_universe cm \<union> set (i # stack)) - visible)"
    by (rule card_mono) (auto simp: finite_cm_universe)
  then show ?case by auto
next
  case (3 cm collapsed i stack visible)
  have "card ((cm_universe cm \<union> set stack) - insert i visible)
          < card ((cm_universe cm \<union> set (i # stack)) - visible)"
    using 3 by (intro psubset_card_mono) (auto simp: finite_cm_universe)
  then show ?case by auto
next
  case (4 cm collapsed i stack visible)
  have "card ((cm_universe cm \<union> set (rev (cm_get cm i) @ stack)) - insert i visible)
          < card ((cm_universe cm \<union> set (i # stack)) - visible)"
    using 4 cm_get_universe[of cm i] by (intro psubset_card_mono) (auto simp: finite_cm_universe)
  then show ?case by auto
qed

subsection \<open>The four filters\<close>

text \<open>\<open>filterToNodeBranch\<close>, lines 503-532.\<close>

definition filterToNodeBranch :: "ChildrenMap \<Rightarrow> NodeRow list \<Rightarrow> string \<Rightarrow> NodeRow list option" where
  "filterToNodeBranch cm rows nodeId =
     (let byId = byIdMap rows in
      if byId nodeId = None then Some rows
      else case ancestorsLoop byId nodeId {} of
             None \<Rightarrow> None
           | Some inc \<Rightarrow>
               Some (filter (\<lambda>r. rowId r \<in> descendantsLoop cm [nodeId] inc) rows))"

text \<open>\<open>filterToParentBranch\<close>, lines 534-565. \<open>[...children]\<close> is popped from its end.\<close>

definition filterToParentBranch :: "ChildrenMap \<Rightarrow> NodeRow list \<Rightarrow> string \<Rightarrow> NodeRow list option" where
  "filterToParentBranch cm rows pid =
     (let byId = byIdMap rows;
          children = map rowId (filter (\<lambda>r. parentId r = Some pid) rows) in
      if children = [] then Some rows
      else case parentAncestorsLoop byId pid {} of
             None \<Rightarrow> None
           | Some inc \<Rightarrow>
               Some (filter (\<lambda>r. rowId r \<in> descendantsLoop cm (rev children) (inc \<union> set children))
                       rows))"

text \<open>\<open>filterToDropdownBranch\<close>, lines 567-610.\<close>

definition dropdownMatches :: "string \<Rightarrow> NodeRow \<Rightarrow> bool" where
  "dropdownMatches v r =
     (trim (case dropdown r of None \<Rightarrow> [] | Some d \<Rightarrow> d) = v \<or> label r = v \<or> rowId r = v)"

definition dropdownCandidate :: "(string \<rightharpoonup> NodeRow) \<Rightarrow> NodeRow \<Rightarrow> string" where
  "dropdownCandidate byId r =
     (case parentId r of
        None \<Rightarrow> rowId r
      | Some p \<Rightarrow> if p \<noteq> [] \<and> byId p \<noteq> None then p else rowId r)"

fun dropdownInclude ::
  "ChildrenMap \<Rightarrow> (string \<rightharpoonup> NodeRow) \<Rightarrow> string list \<Rightarrow> string set \<Rightarrow> string set option" where
  "dropdownInclude cm byId [] inc = Some inc"
| "dropdownInclude cm byId (i # ids) inc =
     (if byId i = None then dropdownInclude cm byId ids inc
      else case ancestorsLoop byId i inc of
             None \<Rightarrow> None
           | Some inc1 \<Rightarrow> dropdownInclude cm byId ids (descendantsLoop cm [i] inc1))"

definition filterToDropdownBranch :: "ChildrenMap \<Rightarrow> NodeRow list \<Rightarrow> string \<Rightarrow> NodeRow list option" where
  "filterToDropdownBranch cm rows v =
     (let byId = byIdMap rows;
          matchedRoots = foldl setAdd [] (map (dropdownCandidate byId) (filter (dropdownMatches v) rows)) in
      if matchedRoots = [] then Some []
      else case dropdownInclude cm byId matchedRoots {} of
             None \<Rightarrow> None
           | Some inc \<Rightarrow> Some (filter (\<lambda>r. rowId r \<in> inc) rows))"

text \<open>\<open>applyDropdownFilters\<close>, lines 489-501: hierarchy, then parent, then dropdown, each only
  when its value is truthy.\<close>

definition applyDropdownFilters :: "Visual \<Rightarrow> NodeRow list \<Rightarrow> NodeRow list option" where
  "applyDropdownFilters v rows =
     (case (if truthy (hierarchyFilterValue v)
            then filterToNodeBranch (childrenMap v) rows (the (hierarchyFilterValue v))
            else Some rows) of
        None \<Rightarrow> None
      | Some r1 \<Rightarrow>
          (case (if truthy (parentFilterValue v)
                 then filterToParentBranch (childrenMap v) r1 (the (parentFilterValue v))
                 else Some r1) of
             None \<Rightarrow> None
           | Some r2 \<Rightarrow>
               if truthy (dropdownFilterValue v)
               then filterToDropdownBranch (childrenMap v) r2 (the (dropdownFilterValue v))
               else Some r2))"

text \<open>\<open>applySearchFilter\<close>, lines 454-487. The first loop collects the topmost ancestor of
  every row whose lower-cased label contains the query.\<close>

fun searchRoots ::
  "(string \<rightharpoonup> NodeRow) \<Rightarrow> string \<Rightarrow> NodeRow list \<Rightarrow> string list \<Rightarrow> string list option" where
  "searchRoots byId q [] matchedRoots = Some matchedRoots"
| "searchRoots byId q (r # rs) matchedRoots =
     (if \<not> str_includes (toLowerCase (label r)) q then searchRoots byId q rs matchedRoots
      else case rootWalk byId (rowId r) of
             None \<Rightarrow> None
           | Some c \<Rightarrow> searchRoots byId q rs (setAdd matchedRoots c))"

definition applySearchFilter :: "ChildrenMap \<Rightarrow> NodeRow list \<Rightarrow> string \<Rightarrow> NodeRow list option" where
  "applySearchFilter cm rows query =
     (let q = toLowerCase (trim query) in
      if q = [] then Some rows
      else case searchRoots (byIdMap rows) q rows [] of
             None \<Rightarrow> None
           | Some matchedRoots \<Rightarrow>
               if matchedRoots = [] then Some []
               else Some (filter (\<lambda>r. rowId r \<in> visitLoop cm {} (rev matchedRoots) {}) rows))"

section \<open>Collapse-aware visibility\<close>

text \<open>\<open>computeVisibleRows\<close>, lines 715-746. \<open>sourceRows\<close> is the filtered row list; the roots
  are pushed in row order, so the last root is on top of the stack.\<close>

definition sourceRows :: "Visual \<Rightarrow> NodeRow list option" where
  "sourceRows v =
     (case applyDropdownFilters v (allRows v) of
        None \<Rightarrow> None
      | Some dropdownRows \<Rightarrow> applySearchFilter (childrenMap v) dropdownRows (searchQuery v))"

definition rootsOf :: "NodeRow list \<Rightarrow> NodeRow list" where
  "rootsOf rows =
     filter (\<lambda>r. \<not> truthy (parentId r) \<or> the (parentId r) \<notin> rowId ` set rows) rows"

definition visibleFrom :: "ChildrenMap \<Rightarrow> string set \<Rightarrow> NodeRow list \<Rightarrow> NodeRow list" where
  "visibleFrom cm collapsed src =
     filter (\<lambda>r. rowId r \<in> visitLoop cm collapsed (rev (map rowId (rootsOf src))) {}) src"

definition computeVisibleRows :: "Visual \<Rightarrow> NodeRow list option" where
  "computeVisibleRows v =
     (case sourceRows v of
        None \<Rightarrow> None
      | Some src \<Rightarrow> Some (visibleFrom (childrenMap v) (collapsedIds v) src))"

section \<open>Hierarchy construction\<close>

text \<open>
  Modelled from the spec: the node type \<open>HierarchyNode\<close> of the d3-hierarchy library (imported at
  line 15 of visual.ts) is not part of src/. A node carries its row, its depth (0 at the root)
  and its children, ordered as the rows are ("node ordering is fixed by the original row order
  at each level", section 4.5 of the spec).
\<close>

datatype HierarchyNode = HNode (hdata: NodeRow) (hdepth: nat) (hchildren: "HierarchyNode list")

text \<open>The failures of tree construction, by the error the library raises: \<open>missing\<close>,
  \<open>ambiguous\<close>, \<open>multiple roots\<close>, \<open>no root\<close> and \<open>cycle\<close>. The program does not tell them
  apart (the \<open>catch\<close> of line 781 ignores the error).\<close>

datatype StructuralError = MissingParent | AmbiguousId | MultipleRoots | NoRoot | CycleFound

text \<open>
  Modelled from the spec: the parent/child relation that \<open>stratify\<close> (d3-hierarchy, not part of
  src/) reads from the working set through the accessors of lines 777-778: the children of an
  id are the rows whose truthy \<open>parentId\<close> is that id, in row order.
\<close>

definition childRows :: "NodeRow list \<Rightarrow> string \<Rightarrow> NodeRow list" where
  "childRows rows i = filter (\<lambda>c. truthy (parentId c) \<and> the (parentId c) = i) rows"

text \<open>
  Modelled from the spec: the tree that \<open>stratify\<close> (d3-hierarchy, not part of src/) builds below
  a row, every child one level deeper than its parent (section 4.4: a "single connected tree").
  The fuel bounds the height; a tree over \<open>n\<close> rows is lower than \<open>n\<close>.
\<close>

fun buildNode :: "nat \<Rightarrow> NodeRow list \<Rightarrow> nat \<Rightarrow> NodeRow \<Rightarrow> HierarchyNode" where
  "buildNode 0 rows k r = HNode r k []"
| "buildNode (Suc fuel) rows k r =
     HNode r k (map (buildNode fuel rows (Suc k)) (childRows rows (rowId r)))"

text \<open>
  Modelled from the spec: \<open>node.eachBefore\<close> of d3-hierarchy (not part of src/, called at
  line 807) visits a node before its children, the children in order; it gives the table rows
  their "display order" (section 6 of the spec).
\<close>

fun eachBefore :: "HierarchyNode \<Rightarrow> HierarchyNode list" where
  "eachBefore (HNode d k cs) = HNode d k cs # concat (map eachBefore cs)"

text \<open>
  Modelled from the spec: the linking loop of \<open>stratify\<close> (d3-hierarchy, not part of src/). The
  rows are taken in order. A row with a truthy parent id has that id looked up among the ids of
  the working set: no row carrying it is the "parent reference that resolves to a node not
  present in the working set" of section 4.4 of the spec, two or more rows carrying it are its
  "duplicate ids"; a repeated id that no row names as parent is not looked up and raises
  nothing. A row without parent is the root of the "single-rooted" tree, and a second such
  row is an error. The result is the root found so far.
\<close>

fun linkRows ::
  "NodeRow list \<Rightarrow> NodeRow list \<Rightarrow> NodeRow option \<Rightarrow> StructuralError + NodeRow option" where
  "linkRows working [] found = Inr found"
| "linkRows working (r # rs) found =
     (if truthy (parentId r) then
        (case filter (\<lambda>u. rowId u = the (parentId r)) working of
           [] \<Rightarrow> Inl MissingParent
         | [u] \<Rightarrow> linkRows working rs found
         | _ \<Rightarrow> Inl AmbiguousId)
      else
        (case found of
           None \<Rightarrow> linkRows working rs (Some r)
         | Some r0 \<Rightarrow> Inl MultipleRoots))"

text \<open>
  Modelled from the spec: \<open>stratify\<close> of the d3-hierarchy library (imported at line 15 of
  visual.ts, called at lines 776-780) is not part of src/. Section 4.4 of the spec says that
  constructing the tree "must detect and reject: duplicate ids, cycles (a node that is its own
  ancestor), and parent references that resolve to a node not present in the working set", and
  that the result is a single-rooted tree; the message of the \<open>catch\<close> branch (line 787) names the
  same three failures. The model raises them where the library does: it links the rows, needs
  a root, builds the tree below it with children in row order and depth 0 at the root, and
  reports a cycle when rows are left over that the root does not reach.
\<close>

definition stratify :: "NodeRow list \<Rightarrow> StructuralError + HierarchyNode" where
  "stratify working =
     (case linkRows working working None of
        Inl e \<Rightarrow> Inl e
      | Inr None \<Rightarrow> Inl NoRoot
      | Inr (Some r) \<Rightarrow>
          (let t = buildNode (length working) working 0 r in
           if length (eachBefore t) < length working then Inl CycleFound else Inr t))"

subsection \<open>From the hierarchy to layout nodes\<close>

text \<open>
  The tidy-tree layout \<open>tree().nodeSize(...)\<close> of d3-hierarchy (lines 794-799) is a floating-point
  algorithm outside src/. It is a parameter \<open>lay\<close> of the model: \<open>lay root i\<close> is the position
  the layout gives the node with id \<open>i\<close> of the tree \<open>root\<close>.

  A \<open>LayoutNode\<close> is taken in its final state: the \<open>parent\<close> and \<open>children\<close> references set by the
  second traversal (lines 825-835) are the ids of the referenced nodes.
\<close>

definition toLayoutNode ::
  "(string \<Rightarrow> real \<times> real) \<Rightarrow> int \<Rightarrow> string option \<Rightarrow> HierarchyNode \<Rightarrow> LayoutNode" where
  "toLayoutNode pos depthOffset p n =
     \<lparr>lnId = rowId (hdata n), lnLabel = label (hdata n), lnValue = rvalue (hdata n),
      lnSparkline = sparkline (hdata n), lnTooltip = tooltip (hdata n),
      x = fst (pos (rowId (hdata n))), y = snd (pos (rowId (hdata n))),
      lnSelectionId = selectionId (hdata n),
      depth = int (hdepth n) - depthOffset,
      lnParent = p,
      lnChildren = (if hchildren n = [] then None
                    else Some (map (\<lambda>c. rowId (hdata c)) (hchildren n)))\<rparr>"

text \<open>The traversal of lines 807-823, in the order of \<open>eachBefore\<close>, each node with the id of
  its parent.\<close>

fun flatten :: "string option \<Rightarrow> HierarchyNode \<Rightarrow> (string option \<times> HierarchyNode) list" where
  "flatten p (HNode d k cs) = (p, HNode d k cs) # concat (map (flatten (Some (rowId d))) cs)"

fun hsize :: "HierarchyNode \<Rightarrow> nat" where
  "hsize (HNode d k cs) = Suc (sum_list (map hsize cs))"

text \<open>The traversal \<open>laidOut.each\<close> of lines 825-835, taken breadth-first as d3-hierarchy
  documents it, as a queue of nodes with the ids of their parents; every node contributes the
  links to its children. No property below depends on the order of the links.\<close>

function eachLinks ::
  "(string option \<Rightarrow> HierarchyNode \<Rightarrow> LayoutNode) \<Rightarrow> (string option \<times> HierarchyNode) list
     \<Rightarrow> (LayoutNode \<times> LayoutNode) list" where
  "eachLinks mk [] = []"
| "eachLinks mk ((p, n) # queue) =
     map (\<lambda>c. (mk p n, mk (Some (rowId (hdata n))) c)) (hchildren n)
       @ eachLinks mk (queue @ map (\<lambda>c. (Some (rowId (hdata n)), c)) (hchildren n))"
  by pat_completeness auto
termination
proof (relation "measure (\<lambda>(mk, queue). sum_list (map (hsize \<circ> snd) queue))", goal_cases)
  case 1
  then show ?case by simp
next
  case (2 mk p n queue)
  have "hsize n = Suc (sum_list (map hsize (hchildren n)))" by (cases n) simp
  then show ?case by (simp add: comp_def)
qed

definition swapXY :: "LayoutNode \<Rightarrow> LayoutNode" where
  "swapXY n = n\<lparr>x := y n, y := x n\<rparr>"

section \<open>View transform\<close>

definition minList :: "real list \<Rightarrow> real" where
  "minList xs = foldl min (hd xs) (tl xs)"

definition maxList :: "real list \<Rightarrow> real" where
  "maxList xs = foldl max (hd xs) (tl xs)"

text \<open>\<open>fitToViewport\<close>, lines 877-912. The folds start from the first node, which is what
  \<open>Math.min(Infinity, x0)\<close> gives; the list is not empty there.\<close>

definition fitToViewport :: "Visual \<Rightarrow> Visual" where
  "fitToViewport v =
     (if nodes v = [] \<or> lastViewportW v \<le> 0 \<or> lastViewportH v \<le> 0 then v
      else
        let minX = minList (map (\<lambda>n. x n - cardWidth v / 2) (nodes v));
            minY = minList (map (\<lambda>n. y n - cardHeight v / 2) (nodes v));
            maxX = maxList (map (\<lambda>n. x n - cardWidth v / 2 + cardWidth v) (nodes v));
            maxY = maxList (map (\<lambda>n. y n - cardHeight v / 2 + cardHeight v) (nodes v));
            contentW = maxX - minX;
            contentH = maxY - minY;
            availableW = max 1 (lastViewportW v - 24 * 2);
            availableH = max 1 (lastViewportH v - 24 * 2);
            sx = availableW / max 1 contentW;
            sy = availableH / max 1 contentH;
            s = min 2 (max 0.2 (min sx sy));
            cx = (minX + maxX) / 2;
            cy = (minY + maxY) / 2
        in v\<lparr>scale := s, tx := lastViewportW v / 2 - cx * s, ty := lastViewportH v / 2 - cy * s\<rparr>)"

text \<open>\<open>getNodeScreenPoint\<close> (lines 859-867) and \<open>keepNodeScreenPosition\<close> (lines 869-875).\<close>

definition getNodeScreenPoint :: "Visual \<Rightarrow> string option \<Rightarrow> (real \<times> real) option" where
  "getNodeScreenPoint v nodeId =
     (if \<not> truthy nodeId then None
      else case find (\<lambda>n. lnId n = the nodeId) (nodes v) of
             None \<Rightarrow> None
           | Some node \<Rightarrow> Some (x node * scale v + tx v, y node * scale v + ty v))"

definition keepNodeScreenPosition :: "Visual \<Rightarrow> string \<Rightarrow> real \<times> real \<Rightarrow> Visual" where
  "keepNodeScreenPosition v nodeId screenPoint =
     (case find (\<lambda>n. lnId n = nodeId) (nodes v) of
        None \<Rightarrow> v
      | Some node \<Rightarrow> v\<lparr>tx := fst screenPoint - x node * scale v,
                        ty := snd screenPoint - y node * scale v\<rparr>)"

text \<open>The translate of a zoom about an anchor, written three times in the source
  (lines 1110-1111, 1307-1308 and 2197-2198): \<open>c - (c - t) * (next / prev)\<close>.\<close>

definition anchored :: "real \<Rightarrow> real \<Rightarrow> real \<Rightarrow> real \<Rightarrow> real" where
  "anchored c t prev next = c - (c - t) * (next / prev)"

text \<open>\<open>zoomBy\<close>, lines 1299-1312 (the zoom buttons call it with 0.9 and 1.1).\<close>

definition zoomBy :: "Visual \<Rightarrow> real \<Rightarrow> Visual" where
  "zoomBy v factor =
     (if viewMode v \<noteq> TreeView then v
      else
        let prev = scale v;
            next = min 4 (max 0.2 (scale v * factor));
            cx = lastViewportW v / 2;
            cy = lastViewportH v / 2
        in v\<lparr>tx := anchored cx (tx v) prev next, ty := anchored cy (ty v) prev next,
              scale := next\<rparr>)"

text \<open>\<open>commitZoom\<close>, lines 1087-1115. The argument is the parsed percentage, \<open>None\<close> when
  \<open>Number.parseFloat\<close> gives no finite number.\<close>

definition commitZoom :: "Visual \<Rightarrow> real option \<Rightarrow> Visual" where
  "commitZoom v parsed =
     (if viewMode v \<noteq> TreeView then v
      else case parsed of
             None \<Rightarrow> v
           | Some num \<Rightarrow>
               let clamped = min 400 (max 20 num);
                   next = clamped / 100;
                   prev = scale v
               in if next = prev then v
                  else
                    let cx = lastViewportW v / 2;
                        cy = lastViewportH v / 2
                    in v\<lparr>tx := anchored cx (tx v) prev next, ty := anchored cy (ty v) prev next,
                          scale := next\<rparr>)"

text \<open>The wheel handler, lines 2182-2203; \<open>mx\<close>, \<open>my\<close> is the pointer inside the canvas.\<close>

definition wheelZoom :: "Visual \<Rightarrow> real \<Rightarrow> real \<Rightarrow> real \<Rightarrow> Visual" where
  "wheelZoom v deltaY mx my =
     (if viewMode v \<noteq> TreeView then v
      else
        let delta = - deltaY;
            zoomFactor = (if delta > 0 then 1.1 else 0.9);
            prev = scale v;
            next = min 4 (max 0.2 (scale v * zoomFactor))
        in v\<lparr>tx := anchored mx (tx v) prev next, ty := anchored my (ty v) prev next,
              scale := next\<rparr>)"

text \<open>The double-click handler, lines 2205-2223, once \<open>hitTest\<close> has found the node \<open>hit\<close>
  outside its toggle.\<close>

definition dblclickZoom :: "Visual \<Rightarrow> LayoutNode \<Rightarrow> Visual" where
  "dblclickZoom v hit =
     (if viewMode v \<noteq> TreeView then v
      else
        let zoomPercent = max 10 (doubleClickZoomPercent v);
            factor = zoomPercent / 100;
            next = min 4 (max 0.2 (scale v * factor));
            cx = lastViewportW v / 2;
            cy = lastViewportH v / 2
        in v\<lparr>tx := cx - x hit * next, ty := cy - y hit * next, scale := next\<rparr>)"

text \<open>Panning in the pointer-move handler, lines 2139-2150.\<close>

definition panBy :: "Visual \<Rightarrow> real \<Rightarrow> real \<Rightarrow> Visual" where
  "panBy v dx dy = (if viewMode v \<noteq> TreeView then v else v\<lparr>tx := tx v + dx, ty := ty v + dy\<rparr>)"

section \<open>Layout\<close>

definition syntheticRootId :: string where
  "syntheticRootId = ''__root__''"

text \<open>The synthetic row of lines 760-765; its selection id is a fresh token of the host.\<close>

definition synthetic :: NodeRow where
  "synthetic = \<lparr>rowId = syntheticRootId, parentId = None, label = ''All'', rvalue = None,
     sparkline = None, tooltip = None, dropdown = None, selectionId = 0\<rparr>"

text \<open>\<open>working.findIndex(x => x.id === r.id)\<close> followed by the update of that element
  (lines 769-770).\<close>

fun reparentFirst :: "string \<Rightarrow> NodeRow list \<Rightarrow> NodeRow list" where
  "reparentFirst i [] = []"
| "reparentFirst i (w # ws) =
     (if rowId w = i then w\<lparr>parentId := Some syntheticRootId\<rparr> # ws
      else w # reparentFirst i ws)"

definition workingSet :: "NodeRow list \<Rightarrow> NodeRow list" where
  "workingSet rows =
     (if length (rootsOf rows) \<noteq> 1
      then foldl (\<lambda>w r. reparentFirst (rowId r) w) (rows @ [synthetic]) (rootsOf rows)
      else rows)"

text \<open>\<open>computeLayout\<close>, lines 748-857. The result is the returned flag and the new state.
  The x/y exchange of lines 847-853 mutates the objects that the node list, the link list and
  the table list share, so it shows in all three.\<close>

definition computeLayout ::
  "(HierarchyNode \<Rightarrow> string \<Rightarrow> real \<times> real) \<Rightarrow> Visual \<Rightarrow> NodeRow list \<Rightarrow> bool \<Rightarrow> bool \<times> Visual" where
  "computeLayout lay v rows autoFit =
     (let hasSynthetic = (length (rootsOf rows) \<noteq> 1) in
      case stratify (workingSet rows) of
        Inl e \<Rightarrow>
          (False, v\<lparr>nodes := [], links := [], tableRows := [], message := Some InvalidHierarchy\<rparr>)
      | Inr hroot \<Rightarrow>
          let depthOffset = (if hasSynthetic then 1 else 0);
              mk = toLayoutNode (lay hroot) depthOffset;
              flat = map (\<lambda>(p, n). mk p n) (flatten None hroot);
              lks = eachLinks mk [(None, hroot)];
              sw = (if orientationLR v then swapXY else (\<lambda>n. n));
              keptNodes = (if hasSynthetic then filter (\<lambda>n. lnId n \<noteq> syntheticRootId) flat
                           else flat);
              keptLinks = (if hasSynthetic
                           then filter (\<lambda>l. lnId (fst l) \<noteq> syntheticRootId) lks else lks);
              v1 = v\<lparr>nodes := map sw keptNodes,
                     links := map (\<lambda>l. (sw (fst l), sw (snd l))) keptLinks,
                     tableRows := map sw keptNodes\<rparr>
          in (True, if autoFit then fitToViewport v1 else v1))"

text \<open>\<open>computeLayoutFromState\<close>, lines 695-713. \<open>None\<close>: the filter pipeline does not return.\<close>

definition computeLayoutFromState ::
  "(HierarchyNode \<Rightarrow> string \<Rightarrow> real \<times> real) \<Rightarrow> Visual \<Rightarrow> bool \<Rightarrow> string option
     \<Rightarrow> (bool \<times> Visual) option" where
  "computeLayoutFromState lay v autoFit focusNodeId =
     (case computeVisibleRows v of
        None \<Rightarrow> None
      | Some visibleRows \<Rightarrow>
          if visibleRows = [] then
            Some (True, v\<lparr>nodes := [], links := [], tableRows := [],
                          message := (if searchQuery v \<noteq> [] \<or> truthy (hierarchyFilterValue v)
                                         \<or> truthy (parentFilterValue v)
                                      then Some NoMatches else message v)\<rparr>)
          else
            let focusScreen = (if autoFit then None else getNodeScreenPoint v focusNodeId);
                res = computeLayout lay v visibleRows autoFit
            in if \<not> fst res then Some (False, snd res)
               else if \<not> autoFit \<and> truthy focusNodeId \<and> focusScreen \<noteq> None
               then Some (True, keepNodeScreenPosition (snd res) (the focusNodeId) (the focusScreen))
               else Some (True, snd res))"

section \<open>Mutators\<close>

text \<open>\<open>toggleCollapse\<close>, lines 2302-2312.\<close>

definition toggleCollapse ::
  "(HierarchyNode \<Rightarrow> string \<Rightarrow> real \<times> real) \<Rightarrow> Visual \<Rightarrow> string \<Rightarrow> Visual option" where
  "toggleCollapse lay v nodeId =
     (if \<not> (length (cm_get (childrenMap v) nodeId) > 0) then Some v
      else
        map_option snd
          (computeLayoutFromState lay
             (v\<lparr>collapsedIds := (if nodeId \<in> collapsedIds v then collapsedIds v - {nodeId}
                                  else insert nodeId (collapsedIds v))\<rparr>)
             False (Some nodeId)))"

text \<open>\<open>collapseAll\<close> and \<open>expandAll\<close>, lines 1319-1331.\<close>

definition collapseAll ::
  "(HierarchyNode \<Rightarrow> string \<Rightarrow> real \<times> real) \<Rightarrow> Visual \<Rightarrow> Visual option" where
  "collapseAll lay v =
     map_option snd
       (computeLayoutFromState lay (v\<lparr>collapsedIds := fst ` set (childrenMap v)\<rparr>) True None)"

definition expandAll ::
  "(HierarchyNode \<Rightarrow> string \<Rightarrow> real \<times> real) \<Rightarrow> Visual \<Rightarrow> Visual option" where
  "expandAll lay v =
     map_option snd (computeLayoutFromState lay (v\<lparr>collapsedIds := {}\<rparr>) True None)"

text \<open>The four filter setters, lines 1350-1392; each clears the message before it recomputes.\<close>

definition setSearchQuery ::
  "(HierarchyNode \<Rightarrow> string \<Rightarrow> real \<times> real) \<Rightarrow> Visual \<Rightarrow> string \<Rightarrow> Visual option" where
  "setSearchQuery lay v val =
     (if searchQuery v = trim val then Some v
      else map_option snd
             (computeLayoutFromState lay (v\<lparr>searchQuery := trim val, message := None\<rparr>) True None))"

definition orNull :: "string \<Rightarrow> string option" where
  "orNull val = (if val = [] then None else Some val)"

definition setHierarchyFilter ::
  "(HierarchyNode \<Rightarrow> string \<Rightarrow> real \<times> real) \<Rightarrow> Visual \<Rightarrow> string \<Rightarrow> Visual option" where
  "setHierarchyFilter lay v val =
     (if hierarchyFilterValue v = orNull val then Some v
      else map_option snd
             (computeLayoutFromState lay
                (v\<lparr>hierarchyFilterValue := orNull val, message := None\<rparr>) True None))"

definition setParentFilter ::
  "(HierarchyNode \<Rightarrow> string \<Rightarrow> real \<times> real) \<Rightarrow> Visual \<Rightarrow> string \<Rightarrow> Visual option" where
  "setParentFilter lay v val =
     (if parentFilterValue v = orNull val then Some v
      else map_option snd
             (computeLayoutFromState lay
                (v\<lparr>parentFilterValue := orNull val, message := None\<rparr>) True None))"

definition setDropdownFilter ::
  "(HierarchyNode \<Rightarrow> string \<Rightarrow> real \<times> real) \<Rightarrow> Visual \<Rightarrow> string \<Rightarrow> Visual option" where
  "setDropdownFilter lay v val =
     (if dropdownFilterValue v = orNull val then Some v
      else map_option snd
             (computeLayoutFromState lay
                (v\<lparr>dropdownFilterValue := orNull val, message := None\<rparr>) True None))"

section \<open>Example inputs\<close>

text \<open>A row as \<open>parseDataView\<close> builds it when no field column is bound: the label is the id
  (line 358).\<close>

definition mkRow :: "string \<Rightarrow> string option \<Rightarrow> NodeRow" where
  "mkRow i p = \<lparr>rowId = i, parentId = p, label = i, rvalue = None, sparkline = None,
     tooltip = None, dropdown = None, selectionId = 0\<rparr>"

text \<open>The four rows of the example in section 8 of the spec.\<close>

definition exampleRows :: "NodeRow list" where
  "exampleRows = [mkRow ''A'' None, mkRow ''B'' (Some ''A''), mkRow ''C'' (Some ''A''),
                  mkRow ''D'' (Some ''B'')]"

definition exampleVisual :: Visual where
  "exampleVisual = \<lparr>allRows = exampleRows, childrenMap = buildChildrenMap exampleRows,
     collapsedIds = {}, searchQuery = [], hierarchyFilterValue = None, parentFilterValue = None,
     dropdownFilterValue = None, nodes = [], links = [], tableRows = [], message = None,
     tx = 20, ty = 20, scale = 1, lastViewportW = 800, lastViewportH = 600, viewMode = TreeView,
     cardWidth = 160, cardHeight = 56, orientationLR = False, doubleClickZoomPercent = 130\<rparr>"


text \<open>A single row whose dropdown tag has a leading blank, and the visual showing it.\<close>

definition taggedRows :: "NodeRow list" where
  "taggedRows = [(mkRow ''A'' None)\<lparr>dropdown := Some '' x''\<rparr>]"

definition taggedVisual :: Visual where
  "taggedVisual = exampleVisual\<lparr>allRows := taggedRows, childrenMap := buildChildrenMap taggedRows\<rparr>"


text \<open>A node at the origin, for the view transform.\<close>

definition exampleNode :: LayoutNode where
  "exampleNode = \<lparr>lnId = ''A'', lnLabel = ''A'', lnValue = None, lnSparkline = None,
     lnTooltip = None, x = 0, y = 0, lnSelectionId = 0, depth = 0, lnParent = None,
     lnChildren = None\<rparr>"

text \<open>A layout that puts every node at the origin.\<close>

definition flatLayout :: "HierarchyNode \<Rightarrow> string \<Rightarrow> real \<times> real" where
  "flatLayout t i = (0, 0)"


section \<open>Notions used by the properties\<close>

text \<open>The fields that decide the visible rows.\<close>

definition filterInputs ::
  "Visual \<Rightarrow> NodeRow list \<times> ChildrenMap \<times> string set \<times> string \<times> string option \<times> string option \<times> string option" where
  "filterInputs v = (allRows v, childrenMap v, collapsedIds v, searchQuery v,
     hierarchyFilterValue v, parentFilterValue v, dropdownFilterValue v)"

definition visibleIds :: "Visual \<Rightarrow> string set option" where
  "visibleIds v = map_option (\<lambda>rs. rowId ` set rs) (computeVisibleRows v)"


text \<open>One step of the view transform: the seven operations that write \<open>tx\<close>, \<open>ty\<close> or \<open>scale\<close>,
  and any other change of the state, which leaves \<open>scale\<close> alone (no other line of the source
  assigns it). A state is reachable from any state of scale 1, the initial value (line 126).\<close>

inductive viewStep :: "Visual \<Rightarrow> Visual \<Rightarrow> bool" where
  fit: "viewStep v (fitToViewport v)"
| buttons: "viewStep v (zoomBy v factor)"
| entry: "viewStep v (commitZoom v parsed)"
| wheel: "viewStep v (wheelZoom v deltaY mx my)"
| dblclick: "viewStep v (dblclickZoom v hit)"
| pan: "viewStep v (panBy v dx dy)"
| stationary: "viewStep v (keepNodeScreenPosition v nodeId screenPoint)"
| other: "scale v' = scale v \<Longrightarrow> viewStep v v'"

inductive reachable :: "Visual \<Rightarrow> bool" where
  initial: "scale v = 1 \<Longrightarrow> reachable v"
| step: "reachable v \<Longrightarrow> viewStep v v' \<Longrightarrow> reachable v'"

definition scaleOk :: "Visual \<Rightarrow> bool" where
  "scaleOk v = (0.2 \<le> scale v \<and> scale v \<le> 4)"


text \<open>The rows have no parent cycle: some rank decreases from every row to its parent.\<close>

definition ranked :: "(string \<Rightarrow> nat) \<Rightarrow> NodeRow list \<Rightarrow> bool" where
  "ranked rk rows = (\<forall>r \<in> set rows. \<forall>p. parentId r = Some p \<longrightarrow> rk p < rk (rowId r))"

text \<open>A row list obtained from another by \<open>Array.filter\<close>.\<close>

definition keptFrom :: "NodeRow list \<Rightarrow> NodeRow list \<Rightarrow> bool" where
  "keptFrom out rows = (\<exists>P. out = filter P rows)"

text \<open>The three steps of \<open>applyDropdownFilters\<close>, one by one.\<close>

definition hierarchyStage :: "Visual \<Rightarrow> NodeRow list \<Rightarrow> NodeRow list option" where
  "hierarchyStage v rows =
     (if truthy (hierarchyFilterValue v)
      then filterToNodeBranch (childrenMap v) rows (the (hierarchyFilterValue v)) else Some rows)"

definition parentStage :: "Visual \<Rightarrow> NodeRow list \<Rightarrow> NodeRow list option" where
  "parentStage v rows =
     (if truthy (parentFilterValue v)
      then filterToParentBranch (childrenMap v) rows (the (parentFilterValue v)) else Some rows)"

definition dropdownStage :: "Visual \<Rightarrow> NodeRow list \<Rightarrow> NodeRow list option" where
  "dropdownStage v rows =
     (if truthy (dropdownFilterValue v)
      then filterToDropdownBranch (childrenMap v) rows (the (dropdownFilterValue v)) else Some rows)"

text \<open>A rank for the four example rows.\<close>

definition exampleRank :: "string \<Rightarrow> nat" where
  "exampleRank i = (if i = ''A'' then 0 else if i = ''D'' then 2 else 1)"

text \<open>Two roots, one of them through a parent id that is the id of no row.\<close>

definition danglingRows :: "NodeRow list" where
  "danglingRows = [mkRow ''A'' None, mkRow ''B'' (Some ''X'')]"

text \<open>The result of the \<open>catch\<close> branch of \<open>computeLayout\<close>, lines 781-792.\<close>

definition failed :: "Visual \<Rightarrow> bool \<times> Visual" where
  "failed v = (False, v\<lparr>nodes := [], links := [], tableRows := [], message := Some InvalidHierarchy\<rparr>)"

text \<open>What the re-parenting loop of lines 768-771 does for a set of root ids: the first row
  carrying each id gets the synthetic root as parent, later rows with the same id stay.\<close>

fun reparentFirsts :: "string set \<Rightarrow> NodeRow list \<Rightarrow> NodeRow list" where
  "reparentFirsts S [] = []"
| "reparentFirsts S (w # ws) =
     (if rowId w \<in> S then w\<lparr>parentId := Some syntheticRootId\<rparr> # reparentFirsts (S - {rowId w}) ws
      else w # reparentFirsts S ws)"

text \<open>What that loop does to a row when ids are unique.\<close>

definition reparentIf :: "string set \<Rightarrow> NodeRow \<Rightarrow> NodeRow" where
  "reparentIf S w = (if rowId w \<in> S then w\<lparr>parentId := Some syntheticRootId\<rparr> else w)"

text \<open>A rank for the rows of \<open>danglingRows\<close>.\<close>

definition danglingRank :: "string \<Rightarrow> nat" where
  "danglingRank i = (if i = ''B'' then 1 else 0)"

text \<open>The id \<open>A\<close> on two leaves under \<open>R\<close>.\<close>

definition repeatedLeafRows :: "NodeRow list" where
  "repeatedLeafRows = [mkRow ''R'' None, mkRow ''A'' (Some ''R''), mkRow ''A'' (Some ''R'')]"



text \<open>The visual loaded with given rows, nothing collapsed and no filter active.\<close>

definition loadedVisual :: "NodeRow list \<Rightarrow> Visual" where
  "loadedVisual rows = exampleVisual\<lparr>allRows := rows, childrenMap := buildChildrenMap rows\<rparr>"

text \<open>The depth of a row in the forest of the rows: 0 for a root, one more than its parent's
  otherwise.\<close>

inductive hasDepth :: "NodeRow list \<Rightarrow> NodeRow \<Rightarrow> nat \<Rightarrow> bool" for rows where
  root: "r \<in> set (rootsOf rows) \<Longrightarrow> hasDepth rows r 0"
| child: "r \<in> set rows \<Longrightarrow> truthy (parentId r) \<Longrightarrow> q \<in> set rows \<Longrightarrow>
          rowId q = the (parentId r) \<Longrightarrow> hasDepth rows q k \<Longrightarrow> hasDepth rows r (Suc k)"

text \<open>Two roots, one of them with a child.\<close>

definition twoRoots :: "NodeRow list" where
  "twoRoots = [mkRow ''A'' None, mkRow ''B'' None, mkRow ''C'' (Some ''B'')]"

text \<open>The x/y exchange of lines 847-853 as a function of the orientation.\<close>

definition orient :: "Visual \<Rightarrow> LayoutNode \<Rightarrow> LayoutNode" where
  "orient v = (if orientationLR v then swapXY else (\<lambda>n. n))"

text \<open>Where a row of the working set sits in the tree built over the synthetic root.\<close>

definition placed :: "NodeRow list \<Rightarrow> NodeRow \<Rightarrow> nat \<Rightarrow> bool" where
  "placed rows c j =
     (c \<in> set (workingSet rows) \<and>
      ((c = synthetic \<and> j = 0) \<or>
       (\<exists>r \<in> set rows. rowId r = rowId c \<and> 1 \<le> j \<and> hasDepth rows r (j - 1))))"

text \<open>Every row has its id and parent in \<open>full\<close>: the rows are \<open>full\<close> itself, or what
  \<open>expandRowsForFilter\<close> (lines 405-452) copies out of the cached full row set.\<close>

definition drawnFrom :: "NodeRow list \<Rightarrow> NodeRow list \<Rightarrow> bool" where
  "drawnFrom rows full =
     (\<forall>r \<in> set rows. \<exists>u \<in> set full. rowId u = rowId r \<and> parentId u = parentId r)"

section \<open>Properties\<close>

lemma byIdMap_None: "byIdMap rows i = None \<longleftrightarrow> i \<notin> rowId ` set rows"
  by (simp add: byIdMap_def map_of_eq_None_iff image_image)

text \<open>
  Claim C10. A hierarchy-filter node id that is the id of no row of the current row set makes
  \<open>filterToNodeBranch\<close> return the row set unchanged.
\<close>

theorem filterToNodeBranch_unknown_id:
  assumes "nodeId \<notin> rowId ` set rows"
  shows "filterToNodeBranch cm rows nodeId = Some rows"
  using assms by (simp add: filterToNodeBranch_def byIdMap_None)

theorem filterToNodeBranch_unknown_id_witness:
  "''Z'' \<notin> rowId ` set exampleRows \<and>
   filterToNodeBranch (buildChildrenMap exampleRows) exampleRows ''Z'' = Some exampleRows"
proof -
  have h: "''Z'' \<notin> rowId ` set exampleRows" by (simp add: exampleRows_def mkRow_def)
  show ?thesis using h filterToNodeBranch_unknown_id [OF h] by simp
qed

lemma anchored_fixed:
  assumes "s0 \<noteq> 0" and "p * s0 + t0 = a"
  shows "p * s1 + anchored a t0 s0 s1 = a"
proof -
  have "a - t0 = p * s0" using assms(2) by simp
  then have "(a - t0) * (s1 / s0) = p * s1" using assms(1) by simp
  then show ?thesis by (simp add: anchored_def)
qed

lemma zoomBy_fields:
  "viewMode v = TreeView \<Longrightarrow>
     scale (zoomBy v f) = min 4 (max 0.2 (scale v * f)) \<and>
     tx (zoomBy v f) = anchored (lastViewportW v / 2) (tx v) (scale v) (scale (zoomBy v f)) \<and>
     ty (zoomBy v f) = anchored (lastViewportH v / 2) (ty v) (scale v) (scale (zoomBy v f))"
  by (simp add: zoomBy_def Let_def)

lemma wheelZoom_fields:
  "viewMode v = TreeView \<Longrightarrow>
     scale (wheelZoom v dY mx my) = min 4 (max 0.2 (scale v * (if - dY > 0 then 1.1 else 0.9))) \<and>
     tx (wheelZoom v dY mx my) = anchored mx (tx v) (scale v) (scale (wheelZoom v dY mx my)) \<and>
     ty (wheelZoom v dY mx my) = anchored my (ty v) (scale v) (scale (wheelZoom v dY mx my))"
  by (simp add: wheelZoom_def Let_def)

lemma commitZoom_cases:
  "commitZoom v parsed = v \<or>
   (\<exists>num. parsed = Some num \<and> scale (commitZoom v parsed) = min 400 (max 20 num) / 100 \<and>
     tx (commitZoom v parsed) = anchored (lastViewportW v / 2) (tx v) (scale v) (scale (commitZoom v parsed)) \<and>
     ty (commitZoom v parsed) = anchored (lastViewportH v / 2) (ty v) (scale v) (scale (commitZoom v parsed)))"
  by (cases parsed) (simp_all add: commitZoom_def Let_def)

lemma zoom_ops_anchored:
  assumes "(v' = zoomBy v factor \<and> ax = lastViewportW v / 2 \<and> ay = lastViewportH v / 2)
         \<or> (v' = commitZoom v parsed \<and> ax = lastViewportW v / 2 \<and> ay = lastViewportH v / 2)
         \<or> v' = wheelZoom v deltaY ax ay"
  shows "v' = v \<or> (tx v' = anchored ax (tx v) (scale v) (scale v') \<and>
                    ty v' = anchored ay (ty v) (scale v) (scale v'))"
proof -
  from assms consider
      (buttons) "v' = zoomBy v factor" "ax = lastViewportW v / 2" "ay = lastViewportH v / 2"
    | (entry) "v' = commitZoom v parsed" "ax = lastViewportW v / 2" "ay = lastViewportH v / 2"
    | (wheel) "v' = wheelZoom v deltaY ax ay"
    by blast
  then show ?thesis
  proof cases
    case buttons
    show ?thesis
    proof (cases "viewMode v = TreeView")
      case True
      from zoomBy_fields[OF True, of factor] show ?thesis unfolding buttons by blast
    next
      case False
      then show ?thesis using buttons by (simp add: zoomBy_def)
    qed
  next
    case entry
    from commitZoom_cases[of v parsed] show ?thesis unfolding entry by blast
  next
    case wheel
    show ?thesis
    proof (cases "viewMode v = TreeView")
      case True
      from wheelZoom_fields[OF True, of deltaY ax ay] show ?thesis unfolding wheel by blast
    next
      case False
      then show ?thesis using wheel by (simp add: wheelZoom_def)
    qed
  qed
qed

text \<open>
  Claim C8. Over exact arithmetic, a zoom with anchor \<open>(ax, ay)\<close> (the viewport centre for the
  zoom buttons and the percentage entry, the pointer for the wheel) keeps fixed the layout point
  that the old transform mapped to the anchor. The old scale is not zero; every scale the
  program sets lies in \<open>[0.2, 4]\<close>.
\<close>

theorem zoom_anchoring:
  assumes "scale v \<noteq> 0"
    and "(v' = zoomBy v factor \<and> ax = lastViewportW v / 2 \<and> ay = lastViewportH v / 2)
         \<or> (v' = commitZoom v parsed \<and> ax = lastViewportW v / 2 \<and> ay = lastViewportH v / 2)
         \<or> v' = wheelZoom v deltaY ax ay"
    and "px * scale v + tx v = ax"
    and "py * scale v + ty v = ay"
  shows "px * scale v' + tx v' = ax \<and> py * scale v' + ty v' = ay"
proof -
  from zoom_ops_anchored[OF assms(2)] show ?thesis
  proof
    assume "v' = v"
    then show ?thesis using assms(3,4) by simp
  next
    assume a: "tx v' = anchored ax (tx v) (scale v) (scale v') \<and>
               ty v' = anchored ay (ty v) (scale v) (scale v')"
    have "px * scale v' + anchored ax (tx v) (scale v) (scale v') = ax"
      using assms(1,3) by (rule anchored_fixed)
    moreover have "py * scale v' + anchored ay (ty v) (scale v) (scale v') = ay"
      using assms(1,4) by (rule anchored_fixed)
    ultimately show ?thesis using a by simp
  qed
qed

theorem zoom_anchoring_witness:
  "scale exampleVisual \<noteq> 0 \<and>
   380 * scale exampleVisual + tx exampleVisual = lastViewportW exampleVisual / 2 \<and>
   280 * scale exampleVisual + ty exampleVisual = lastViewportH exampleVisual / 2 \<and>
   380 * scale (zoomBy exampleVisual 1.1) + tx (zoomBy exampleVisual 1.1) = 400 \<and>
   280 * scale (zoomBy exampleVisual 1.1) + ty (zoomBy exampleVisual 1.1) = 300"
proof -
  have h1: "scale exampleVisual \<noteq> 0" by (simp add: exampleVisual_def)
  have h2: "(zoomBy exampleVisual 1.1 = zoomBy exampleVisual 1.1
              \<and> lastViewportW exampleVisual / 2 = lastViewportW exampleVisual / 2
              \<and> lastViewportH exampleVisual / 2 = lastViewportH exampleVisual / 2)
            \<or> (zoomBy exampleVisual 1.1 = commitZoom exampleVisual None
              \<and> lastViewportW exampleVisual / 2 = lastViewportW exampleVisual / 2
              \<and> lastViewportH exampleVisual / 2 = lastViewportH exampleVisual / 2)
            \<or> zoomBy exampleVisual 1.1 = wheelZoom exampleVisual 0 (lastViewportW exampleVisual / 2) (lastViewportH exampleVisual / 2)"
    by simp
  have h3: "380 * scale exampleVisual + tx exampleVisual = lastViewportW exampleVisual / 2"
    by (simp add: exampleVisual_def)
  have h4: "280 * scale exampleVisual + ty exampleVisual = lastViewportH exampleVisual / 2"
    by (simp add: exampleVisual_def)
  from zoom_anchoring [OF h1 h2 h3 h4] h1 h3 h4 show ?thesis
    by (simp add: exampleVisual_def)
qed

lemma fitToViewport_scale:
  "scale (fitToViewport v) = scale v \<or> (0.2 \<le> scale (fitToViewport v) \<and> scale (fitToViewport v) \<le> 2)"
  by (simp add: fitToViewport_def Let_def min_def max_def)

lemma fitToViewport_runs:
  assumes "nodes v \<noteq> []" "0 < lastViewportW v" "0 < lastViewportH v"
  shows "0.2 \<le> scale (fitToViewport v) \<and> scale (fitToViewport v) \<le> 2"
  using assms by (simp add: fitToViewport_def Let_def min_def max_def)

lemma zoomBy_scale: "scaleOk v \<Longrightarrow> scaleOk (zoomBy v f)"
  by (simp add: zoomBy_def Let_def scaleOk_def min_def max_def)

lemma wheelZoom_scale: "scaleOk v \<Longrightarrow> scaleOk (wheelZoom v dY mx my)"
  by (simp add: wheelZoom_def Let_def scaleOk_def min_def max_def)

lemma dblclickZoom_scale: "scaleOk v \<Longrightarrow> scaleOk (dblclickZoom v hit)"
proof (cases "viewMode v = TreeView")
  case True
  define s where "s = scale v * (max 10 (doubleClickZoomPercent v) / 100)"
  have "scale (dblclickZoom v hit) = min 4 (max 0.2 s)"
    using True by (simp add: dblclickZoom_def Let_def s_def)
  then show ?thesis by (simp add: scaleOk_def min_def max_def)
next
  case False
  then show "scaleOk v \<Longrightarrow> scaleOk (dblclickZoom v hit)" by (simp add: dblclickZoom_def)
qed

lemma commitZoom_scale: "scaleOk v \<Longrightarrow> scaleOk (commitZoom v parsed)"
proof (cases parsed)
  case None
  then show "scaleOk v \<Longrightarrow> scaleOk (commitZoom v parsed)" by (simp add: commitZoom_def)
next
  case (Some num)
  have "0.2 \<le> min 400 (max 20 num) / 100 \<and> min 400 (max 20 num) / 100 \<le> 4"
    by (simp add: min_def max_def)
  then show "scaleOk v \<Longrightarrow> scaleOk (commitZoom v parsed)"
    using Some by (simp add: commitZoom_def Let_def scaleOk_def)
qed

lemma panBy_scale: "scale (panBy v dx dy) = scale v"
  by (simp add: panBy_def)

lemma keepNodeScreenPosition_scale: "scale (keepNodeScreenPosition v n pt) = scale v"
  by (simp add: keepNodeScreenPosition_def split: option.splits)

lemma viewStep_scaleOk: "viewStep v v' \<Longrightarrow> scaleOk v \<Longrightarrow> scaleOk v'"
proof (induction rule: viewStep.induct)
  case (fit v)
  then show ?case using fitToViewport_scale[of v] by (auto simp: scaleOk_def)
next
  case (buttons v factor)
  then show ?case by (rule zoomBy_scale)
next
  case (entry v parsed)
  then show ?case by (rule commitZoom_scale)
next
  case (wheel v deltaY mx my)
  then show ?case by (rule wheelZoom_scale)
next
  case (dblclick v hit)
  then show ?case by (rule dblclickZoom_scale)
next
  case (pan v dx dy)
  then show ?case by (simp add: scaleOk_def panBy_scale)
next
  case (stationary v nodeId screenPoint)
  then show ?case by (simp add: scaleOk_def keepNodeScreenPosition_scale)
next
  case (other v' v)
  then show ?case by (simp add: scaleOk_def)
qed

lemma reachable_scaleOk: "reachable v \<Longrightarrow> scaleOk v"
proof (induction rule: reachable.induct)
  case (initial v)
  then show ?case by (simp add: scaleOk_def)
next
  case (step v v')
  then show ?case using viewStep_scaleOk by blast
qed

text \<open>The recomputations that the filters, the search and the collapse toggles trigger are
  sequences of such steps, so they keep a state reachable.\<close>

lemma outputs_update_scale:
  "scale (v\<lparr>nodes := ns, links := ls, tableRows := ts\<rparr>) = scale v"
  "scale (v\<lparr>nodes := ns, links := ls, tableRows := ts, message := m\<rparr>) = scale v"
  by simp_all

lemma computeLayout_shape:
  "\<exists>v1. scale v1 = scale v \<and>
        snd (computeLayout lay v rows af) = (if af then fitToViewport v1 else v1)"
proof (cases "stratify (workingSet rows)")
  case (Inl e)
  let ?v1 = "v\<lparr>nodes := [], links := [], tableRows := [], message := Some InvalidHierarchy\<rparr>"
  have s: "snd (computeLayout lay v rows af) = ?v1" using Inl by (simp add: computeLayout_def)
  have "fitToViewport ?v1 = ?v1" by (simp add: fitToViewport_def)
  then have "snd (computeLayout lay v rows af) = (if af then fitToViewport ?v1 else ?v1)"
    using s by simp
  moreover have "scale ?v1 = scale v" by simp
  ultimately show ?thesis by blast
next
  case (Inr t)
  then obtain ns ls ts where
    "snd (computeLayout lay v rows af) =
       (if af then fitToViewport (v\<lparr>nodes := ns, links := ls, tableRows := ts\<rparr>)
        else v\<lparr>nodes := ns, links := ls, tableRows := ts\<rparr>)"
    by (simp add: computeLayout_def Let_def)
  moreover have "scale (v\<lparr>nodes := ns, links := ls, tableRows := ts\<rparr>) = scale v" by simp
  ultimately show ?thesis by blast
qed

lemma computeLayout_reachable:
  assumes "reachable v"
  shows "reachable (snd (computeLayout lay v rows af))"
proof -
  from computeLayout_shape[of v lay rows af] obtain v1 where v1: "scale v1 = scale v"
    and s: "snd (computeLayout lay v rows af) = (if af then fitToViewport v1 else v1)" by blast
  have r1: "reachable v1" using assms v1 by (blast intro: reachable.step viewStep.other)
  then have "reachable (fitToViewport v1)" by (blast intro: reachable.step viewStep.fit)
  then show ?thesis using r1 s by simp
qed

lemma computeLayoutFromState_reachable:
  assumes "reachable v" and "computeLayoutFromState lay v af f = Some res"
  shows "reachable (snd res)"
proof -
  from assms(2) obtain vis where vis: "computeVisibleRows v = Some vis"
    by (auto simp: computeLayoutFromState_def split: option.splits)
  show ?thesis
  proof (cases "vis = []")
    case True
    then have "scale (snd res) = scale v" using assms(2) vis
      by (auto simp: computeLayoutFromState_def)
    then show ?thesis using assms(1) by (blast intro: reachable.step viewStep.other)
  next
    case False
    let ?c = "snd (computeLayout lay v vis af)"
    have rc: "reachable ?c" using assms(1) by (rule computeLayout_reachable)
    have "snd res = ?c \<or>
          snd res = keepNodeScreenPosition ?c (the f) (the (if af then None else getNodeScreenPoint v f))"
      using assms(2) vis False by (auto simp: computeLayoutFromState_def Let_def split: if_splits)
    moreover have "reachable (keepNodeScreenPosition ?c n pt)" for n pt
      using rc by (rule reachable.step) (rule viewStep.stationary)
    ultimately show ?thesis using rc by metis
  qed
qed

lemma toggleCollapse_reachable:
  assumes "reachable v" and "toggleCollapse lay v n = Some v'"
  shows "reachable v'"
proof (cases "cm_get (childrenMap v) n = []")
  case True
  then show ?thesis using assms by (simp add: toggleCollapse_def)
next
  case False
  let ?u = "v\<lparr>collapsedIds := (if n \<in> collapsedIds v then collapsedIds v - {n}
                                  else insert n (collapsedIds v))\<rparr>"
  have "reachable ?u" using assms(1) by (rule reachable.step) (simp add: viewStep.other)
  moreover from assms(2) False obtain res
    where "computeLayoutFromState lay ?u False (Some n) = Some res" "v' = snd res"
    by (auto simp: toggleCollapse_def)
  ultimately show ?thesis using computeLayoutFromState_reachable by blast
qed

text \<open>
  Claim C9. From the initial scale 1, after any sequence of fit-to-viewport, wheel zoom, zoom
  buttons, percentage entry, double-click zoom, pan and stationary-node adjustment the scale lies
  in \<open>[0.2, 4]\<close>; a fit that runs (some node, positive viewport) gives a scale in \<open>[0.2, 2]\<close>.
\<close>

theorem scale_clamped:
  assumes "reachable v"
  shows "0.2 \<le> scale v \<and> scale v \<le> 4 \<and>
         (nodes v \<noteq> [] \<and> 0 < lastViewportW v \<and> 0 < lastViewportH v \<longrightarrow>
            0.2 \<le> scale (fitToViewport v) \<and> scale (fitToViewport v) \<le> 2)"
  using reachable_scaleOk[OF assms] fitToViewport_runs[of v] by (simp add: scaleOk_def)

lemmas string_defs = truthy_def trim_def isSpace_def toLowerCase_def toLowerChar_def setAdd_def
lemmas filter_defs = computeVisibleRows_def sourceRows_def applyDropdownFilters_def
  applySearchFilter_def filterToDropdownBranch_def filterToNodeBranch_def filterToParentBranch_def
  dropdownMatches_def dropdownCandidate_def visibleFrom_def rootsOf_def byIdMap_def parentOf_def
  cm_get_def buildChildrenMap_def buildChildrenMap_step_def

text \<open>
  Claim C6, evaluated where the code departs from it: with only the dropdown filter active and
  no row left, \<open>computeLayoutFromState\<close> empties the outputs and shows no message, because the
  test of line 701 does not mention \<open>dropdownFilterValue\<close>.
\<close>

theorem dropdown_only_no_message:
  "setDropdownFilter lay taggedVisual '' x'' =
     Some (taggedVisual\<lparr>dropdownFilterValue := Some '' x'', message := None,
                         nodes := [], links := [], tableRows := []\<rparr>)"
  by (simp add: setDropdownFilter_def orNull_def computeLayoutFromState_def taggedVisual_def
      exampleVisual_def taggedRows_def mkRow_def filter_defs string_defs)

lemma cm_example: "buildChildrenMap exampleRows = [(''A'', [''B'', ''C'']), (''B'', [''D''])]"
  by (simp add: exampleRows_def mkRow_def filter_defs)


lemma sourceRows_cong:
  assumes "allRows v = allRows v'" "childrenMap v = childrenMap v'" "searchQuery v = searchQuery v'"
    "hierarchyFilterValue v = hierarchyFilterValue v'" "parentFilterValue v = parentFilterValue v'"
    "dropdownFilterValue v = dropdownFilterValue v'"
  shows "sourceRows v = sourceRows v'"
  unfolding sourceRows_def applyDropdownFilters_def assms ..

lemma computeVisibleRows_cong:
  assumes "filterInputs v = filterInputs v'"
  shows "computeVisibleRows v = computeVisibleRows v'"
proof -
  have "sourceRows v = sourceRows v'"
    using assms by (intro sourceRows_cong) (simp_all add: filterInputs_def)
  then show ?thesis using assms
    by (simp add: computeVisibleRows_def filterInputs_def cong: option.case_cong)
qed

lemma view_update_frame: "filterInputs (v\<lparr>scale := s, tx := a, ty := b\<rparr>) = filterInputs v"
  by (simp add: filterInputs_def)

lemma fitToViewport_frame: "filterInputs (fitToViewport v) = filterInputs v"
  unfolding fitToViewport_def Let_def
  by (simp only: view_update_frame if_distrib[where f = filterInputs] if_cancel)

lemma keepNodeScreenPosition_frame: "filterInputs (keepNodeScreenPosition v n pt) = filterInputs v"
  by (simp add: keepNodeScreenPosition_def filterInputs_def split: option.splits)

lemma computeLayout_frame: "filterInputs (snd (computeLayout lay v rows af)) = filterInputs v"
proof (cases "stratify (workingSet rows)")
  case (Inl e)
  then show ?thesis by (simp add: computeLayout_def filterInputs_def)
next
  case (Inr t)
  show ?thesis
  proof (cases af)
    case True
    then show ?thesis using Inr
      by (simp add: computeLayout_def Let_def fitToViewport_frame) (simp add: filterInputs_def)
  next
    case False
    then show ?thesis using Inr by (simp add: computeLayout_def Let_def filterInputs_def)
  qed
qed

lemma computeLayoutFromState_frame:
  assumes "computeLayoutFromState lay v af f = Some res"
  shows "filterInputs (snd res) = filterInputs v"
proof -
  from assms obtain vis where vis: "computeVisibleRows v = Some vis"
    by (auto simp: computeLayoutFromState_def split: option.splits)
  show ?thesis
  proof (cases "vis = []")
    case True
    then show ?thesis using assms vis
      by (auto simp: computeLayoutFromState_def filterInputs_def)
  next
    case False
    then show ?thesis using assms vis computeLayout_frame[of lay v vis af]
      by (auto simp: computeLayoutFromState_def Let_def keepNodeScreenPosition_frame
          split: if_splits)
  qed
qed

lemma computeLayoutFromState_defined:
  "computeLayoutFromState lay v af f \<noteq> None \<longleftrightarrow> sourceRows v \<noteq> None"
  by (auto simp: computeLayoutFromState_def computeVisibleRows_def Let_def split: option.splits)

lemma toggled_twice:
  "(if n \<in> (if n \<in> S then S - {n} else insert n S)
    then (if n \<in> S then S - {n} else insert n S) - {n}
    else insert n (if n \<in> S then S - {n} else insert n S)) = S"
  by auto

text \<open>
  Claim C7. Toggling a node without children in the children index returns the state as it
  is; a toggle that returns, repeated on its result, returns again and restores the collapse set
  and the visible rows.
\<close>

theorem collapse_toggle:
  "(cm_get (childrenMap v) nodeId = [] \<longrightarrow> toggleCollapse lay v nodeId = Some v) \<and>
   (\<forall>v1. toggleCollapse lay v nodeId = Some v1 \<longrightarrow>
      (\<exists>v2. toggleCollapse lay v1 nodeId = Some v2 \<and> collapsedIds v2 = collapsedIds v \<and>
            computeVisibleRows v2 = computeVisibleRows v))"
proof (intro conjI allI impI)
  assume "cm_get (childrenMap v) nodeId = []"
  then show "toggleCollapse lay v nodeId = Some v" by (simp add: toggleCollapse_def)
next
  fix v1
  assume t1: "toggleCollapse lay v nodeId = Some v1"
  show "\<exists>v2. toggleCollapse lay v1 nodeId = Some v2 \<and> collapsedIds v2 = collapsedIds v \<and>
            computeVisibleRows v2 = computeVisibleRows v"
  proof (cases "cm_get (childrenMap v) nodeId = []")
    case True
    then have "v1 = v" using t1 by (simp add: toggleCollapse_def)
    then show ?thesis using t1 by simp
  next
    case False
    define u where "u = v\<lparr>collapsedIds := (if nodeId \<in> collapsedIds v then collapsedIds v - {nodeId}
                                  else insert nodeId (collapsedIds v))\<rparr>"
    from t1 False obtain res where res: "computeLayoutFromState lay u False (Some nodeId) = Some res"
      and v1: "v1 = snd res"
      by (auto simp: toggleCollapse_def u_def)
    have f1: "filterInputs v1 = filterInputs u"
      using computeLayoutFromState_frame[OF res] v1 by simp
    then have cm1: "childrenMap v1 = childrenMap v" and col1: "collapsedIds v1 = collapsedIds u"
      by (simp_all add: filterInputs_def u_def)
    define u2 where "u2 = v1\<lparr>collapsedIds := (if nodeId \<in> collapsedIds v1 then collapsedIds v1 - {nodeId}
                                  else insert nodeId (collapsedIds v1))\<rparr>"
    have cu2: "collapsedIds u2 = collapsedIds v"
      unfolding u2_def using col1 by (auto simp add: u_def)
    have fu2: "filterInputs u2 = filterInputs v"
      using f1 cu2 by (simp add: filterInputs_def u2_def u_def)
    have "sourceRows u \<noteq> None"
      using res computeLayoutFromState_defined[of lay u False "Some nodeId"] by simp
    moreover have "sourceRows u2 = sourceRows u"
      using fu2 by (intro sourceRows_cong) (simp_all add: filterInputs_def u_def)
    ultimately have "computeLayoutFromState lay u2 False (Some nodeId) \<noteq> None"
      using computeLayoutFromState_defined[of lay u2 False "Some nodeId"] by simp
    then obtain res2 where res2: "computeLayoutFromState lay u2 False (Some nodeId) = Some res2"
      by blast
    have t2: "toggleCollapse lay v1 nodeId = Some (snd res2)"
      using False cm1 res2 by (simp add: toggleCollapse_def u2_def)
    have f2: "filterInputs (snd res2) = filterInputs v"
      using computeLayoutFromState_frame[OF res2] fu2 by simp
    then have "collapsedIds (snd res2) = collapsedIds v" by (simp add: filterInputs_def)
    moreover have "computeVisibleRows (snd res2) = computeVisibleRows v"
      using f2 by (rule computeVisibleRows_cong)
    ultimately show ?thesis using t2 by blast
  qed
qed

theorem scale_clamped_witness:
  "reachable (zoomBy (exampleVisual\<lparr>nodes := [exampleNode]\<rparr>) 1.1) \<and>
   scale (zoomBy (exampleVisual\<lparr>nodes := [exampleNode]\<rparr>) 1.1) = 1.1 \<and>
   nodes (zoomBy (exampleVisual\<lparr>nodes := [exampleNode]\<rparr>) 1.1) \<noteq> [] \<and>
   0 < lastViewportW (zoomBy (exampleVisual\<lparr>nodes := [exampleNode]\<rparr>) 1.1) \<and>
   0 < lastViewportH (zoomBy (exampleVisual\<lparr>nodes := [exampleNode]\<rparr>) 1.1) \<and>
   scale (fitToViewport (zoomBy (exampleVisual\<lparr>nodes := [exampleNode]\<rparr>) 1.1)) \<le> 2"
proof -
  let ?v = "exampleVisual\<lparr>nodes := [exampleNode]\<rparr>"
  have "reachable ?v" by (rule reachable.initial) (simp add: exampleVisual_def)
  then have r: "reachable (zoomBy ?v 1.1)"
    by (rule reachable.step) (rule viewStep.buttons)
  have f: "scale (zoomBy ?v 1.1) = 1.1 \<and> nodes (zoomBy ?v 1.1) \<noteq> [] \<and>
     0 < lastViewportW (zoomBy ?v 1.1) \<and> 0 < lastViewportH (zoomBy ?v 1.1)"
    by (simp add: zoomBy_def exampleVisual_def Let_def)
  from scale_clamped [OF r] r f show ?thesis by simp
qed


lemma toggleCollapse_result:
  assumes "cm_get (childrenMap v) n \<noteq> []" and "sourceRows v \<noteq> None"
  shows "\<exists>v2. toggleCollapse lay v n = Some v2 \<and>
    filterInputs v2 = filterInputs (v\<lparr>collapsedIds := (if n \<in> collapsedIds v then collapsedIds v - {n}
                                  else insert n (collapsedIds v))\<rparr>)"
proof -
  let ?u = "v\<lparr>collapsedIds := (if n \<in> collapsedIds v then collapsedIds v - {n}
                                  else insert n (collapsedIds v))\<rparr>"
  have "sourceRows ?u = sourceRows v" by (intro sourceRows_cong) simp_all
  then have "computeLayoutFromState lay ?u False (Some n) \<noteq> None"
    using assms(2) computeLayoutFromState_defined[of lay ?u False "Some n"] by simp
  then obtain res where res: "computeLayoutFromState lay ?u False (Some n) = Some res" by blast
  have "toggleCollapse lay v n = Some (snd res)"
    using assms(1) res by (simp add: toggleCollapse_def)
  then show ?thesis using computeLayoutFromState_frame[OF res] by blast
qed

lemma setSearchQuery_result:
  assumes "searchQuery v \<noteq> trim val" and "sourceRows (v\<lparr>searchQuery := trim val\<rparr>) \<noteq> None"
  shows "\<exists>v1. setSearchQuery lay v val = Some v1 \<and>
    filterInputs v1 = filterInputs (v\<lparr>searchQuery := trim val\<rparr>)"
proof -
  let ?u = "v\<lparr>searchQuery := trim val, message := None\<rparr>"
  have "sourceRows ?u = sourceRows (v\<lparr>searchQuery := trim val\<rparr>)"
    by (intro sourceRows_cong) simp_all
  then have "computeLayoutFromState lay ?u True None \<noteq> None"
    using assms(2) computeLayoutFromState_defined[of lay ?u True None] by simp
  then obtain res where res: "computeLayoutFromState lay ?u True None = Some res" by blast
  have "setSearchQuery lay v val = Some (snd res)"
    using assms(1) res by (simp add: setSearchQuery_def)
  moreover have "filterInputs ?u = filterInputs (v\<lparr>searchQuery := trim val\<rparr>)"
    by (simp add: filterInputs_def)
  ultimately show ?thesis using computeLayoutFromState_frame[OF res] by auto
qed

lemma visibleIds_cong: "filterInputs v = filterInputs v' \<Longrightarrow> visibleIds v = visibleIds v'"
  using computeVisibleRows_cong[of v v'] by (simp add: visibleIds_def)

lemmas example_eval = computeVisibleRows_def sourceRows_def applyDropdownFilters_def
      applySearchFilter_def visibleFrom_def rootsOf_def byIdMap_def parentOf_def rootWalk.simps
      exampleRows_def mkRow_def cm_get_def string_defs

lemma example_search_rows:
  "computeVisibleRows (exampleVisual\<lparr>searchQuery := ''D''\<rparr>) = Some exampleRows"
  unfolding exampleVisual_def cm_example by (simp add: example_eval)

lemma example_search_collapsed_rows:
  "computeVisibleRows (exampleVisual\<lparr>searchQuery := ''D'', collapsedIds := {''B''}\<rparr>) 
   = Some [mkRow ''A'' None, mkRow ''B'' (Some ''A''), mkRow ''C'' (Some ''A'')]"
  unfolding exampleVisual_def cm_example by (simp add: example_eval)

lemma example_search_ids:
  "visibleIds (exampleVisual\<lparr>searchQuery := ''D''\<rparr>) = Some {''A'', ''B'', ''C'', ''D''}"
  by (simp add: visibleIds_def example_search_rows) (auto simp: exampleRows_def mkRow_def)

lemma example_search_collapsed_ids:
  "visibleIds (exampleVisual\<lparr>searchQuery := ''D'', collapsedIds := {''B''}\<rparr>) = Some {''A'', ''B'', ''C''}"
  by (simp add: visibleIds_def example_search_collapsed_rows) (auto simp: mkRow_def)

lemma trim_D: "trim ''D'' = ''D''"
  by (simp add: string_defs)

lemma example_search_step:
  "\<exists>v1. setSearchQuery lay exampleVisual ''D'' = Some v1 \<and>
        filterInputs v1 = filterInputs (exampleVisual\<lparr>searchQuery := ''D''\<rparr>)"
proof -
  have a: "searchQuery exampleVisual \<noteq> trim ''D''" by (simp add: trim_D exampleVisual_def)
  have b: "sourceRows (exampleVisual\<lparr>searchQuery := trim ''D''\<rparr>) \<noteq> None"
    using example_search_rows by (auto simp: trim_D computeVisibleRows_def split: option.splits)
  from setSearchQuery_result[OF a b, of lay] show ?thesis by (simp add: trim_D)
qed

text \<open>
  Claim C1, as the code has it. On the four example rows the search query \<open>D\<close> keeps the whole
  tree of the topmost ancestor of the match: the visible set is \<open>{A, B, C, D}\<close>, with \<open>C\<close>.
  Collapsing \<open>B\<close> afterwards gives \<open>{A, B, C}\<close> and leaves the query as it was.
\<close>

theorem search_keeps_whole_tree:
  "\<exists>v1 v2. setSearchQuery lay exampleVisual ''D'' = Some v1 \<and>
     visibleIds v1 = Some {''A'', ''B'', ''C'', ''D''} \<and>
     toggleCollapse lay v1 ''B'' = Some v2 \<and>
     collapsedIds v2 = {''B''} \<and> searchQuery v2 = ''D'' \<and>
     visibleIds v2 = Some {''A'', ''B'', ''C''}"
proof -
  from example_search_step obtain v1 where s1: "setSearchQuery lay exampleVisual ''D'' = Some v1"
    and f1: "filterInputs v1 = filterInputs (exampleVisual\<lparr>searchQuery := ''D''\<rparr>)" by blast
  have vis1: "visibleIds v1 = Some {''A'', ''B'', ''C'', ''D''}"
    using visibleIds_cong[OF f1] example_search_ids by simp
  have cm1: "childrenMap v1 = [(''A'', [''B'', ''C'']), (''B'', [''D''])]"
    using f1 by (simp add: filterInputs_def exampleVisual_def cm_example)
  have col1: "collapsedIds v1 = {}" and q1: "searchQuery v1 = ''D''"
    using f1 by (simp_all add: filterInputs_def exampleVisual_def)
  have a: "cm_get (childrenMap v1) ''B'' \<noteq> []" by (simp add: cm1 cm_get_def)
  have "sourceRows v1 = sourceRows (exampleVisual\<lparr>searchQuery := ''D''\<rparr>)"
    using f1 by (intro sourceRows_cong) (simp_all add: filterInputs_def)
  then have b: "sourceRows v1 \<noteq> None"
    using example_search_rows by (auto simp: computeVisibleRows_def split: option.splits)
  from toggleCollapse_result[OF a b, of lay] obtain v2
    where s2: "toggleCollapse lay v1 ''B'' = Some v2"
      and f2: "filterInputs v2 = filterInputs (v1\<lparr>collapsedIds := {''B''}\<rparr>)"
    by (auto simp: col1)
  have f2': "filterInputs v2 = filterInputs (exampleVisual\<lparr>searchQuery := ''D'', collapsedIds := {''B''}\<rparr>)"
    using f1 f2 by (simp add: filterInputs_def)
  have "visibleIds v2 = Some {''A'', ''B'', ''C''}"
    using visibleIds_cong[OF f2'] example_search_collapsed_ids by simp
  moreover have "collapsedIds v2 = {''B''}" "searchQuery v2 = ''D''"
    using f2' by (simp_all add: filterInputs_def exampleVisual_def)
  ultimately show ?thesis using s1 vis1 s2 by blast
qed

text \<open>Claim C1 as stated fails: the visible set after the search is not \<open>{A, B, D}\<close>.\<close>

theorem search_excludes_sibling_counterexample:
  "setSearchQuery flatLayout exampleVisual ''D'' \<noteq> None \<and>
   visibleIds (the (setSearchQuery flatLayout exampleVisual ''D'')) = Some {''A'', ''B'', ''C'', ''D''} \<and>
   visibleIds (the (setSearchQuery flatLayout exampleVisual ''D'')) \<noteq> Some {''A'', ''B'', ''D''}"
proof -
  from example_search_step[of flatLayout] obtain v1
    where s1: "setSearchQuery flatLayout exampleVisual ''D'' = Some v1"
      and f1: "filterInputs v1 = filterInputs (exampleVisual\<lparr>searchQuery := ''D''\<rparr>)" by blast
  have v: "visibleIds v1 = Some {''A'', ''B'', ''C'', ''D''}"
    using visibleIds_cong[OF f1] example_search_ids by simp
  have "''C'' \<in> {''A'', ''B'', ''C'', ''D''}" by simp
  moreover have "''C'' \<notin> {''A'', ''B'', ''D''}" by simp
  ultimately have "{''A'', ''B'', ''C'', ''D''} \<noteq> {''A'', ''B'', ''D''}" by metis
  then show ?thesis using s1 v by simp
qed

lemma toggleCollapse_leaf: "cm_get (childrenMap v) n = [] \<Longrightarrow> toggleCollapse lay v n = Some v"
  by (simp add: toggleCollapse_def)

theorem collapse_toggle_witness:
  "cm_get (childrenMap exampleVisual) ''D'' = [] \<and>
   toggleCollapse flatLayout exampleVisual ''D'' = Some exampleVisual \<and>
   toggleCollapse flatLayout exampleVisual ''B'' \<noteq> None \<and>
   (\<exists>v2. toggleCollapse flatLayout (the (toggleCollapse flatLayout exampleVisual ''B'')) ''B'' = Some v2 \<and>
         collapsedIds v2 = collapsedIds exampleVisual \<and>
         computeVisibleRows v2 = computeVisibleRows exampleVisual)"
proof -
  have leaf: "cm_get (childrenMap exampleVisual) ''D'' = []"
    by (simp add: exampleVisual_def cm_example cm_get_def)
  have inner: "cm_get (childrenMap exampleVisual) ''B'' \<noteq> []"
    by (simp add: exampleVisual_def cm_example cm_get_def)
  have src: "sourceRows exampleVisual \<noteq> None"
    by (simp add: exampleVisual_def sourceRows_def applyDropdownFilters_def applySearchFilter_def
        string_defs)
  from toggleCollapse_result[OF inner src, of flatLayout] obtain v1
    where t1: "toggleCollapse flatLayout exampleVisual ''B'' = Some v1" by blast
  from collapse_toggle[of exampleVisual "''D''" flatLayout] leaf
  have "toggleCollapse flatLayout exampleVisual ''D'' = Some exampleVisual" by blast
  moreover from collapse_toggle[of exampleVisual "''B''" flatLayout] t1
  have "\<exists>v2. toggleCollapse flatLayout v1 ''B'' = Some v2 \<and>
         collapsedIds v2 = collapsedIds exampleVisual \<and>
         computeVisibleRows v2 = computeVisibleRows exampleVisual" by blast
  ultimately show ?thesis using leaf t1 by simp
qed

lemma byIdMap_Some: "byIdMap rows i = Some r \<Longrightarrow> r \<in> set rows \<and> rowId r = i"
proof -
  assume "byIdMap rows i = Some r"
  then have "(i, r) \<in> set (rev (map (\<lambda>r. (rowId r, r)) rows))"
    unfolding byIdMap_def by (rule map_of_SomeD)
  then show ?thesis by auto
qed

lemma parentOf_Some:
  assumes "parentOf (byIdMap rows) i = Some p"
  shows "\<exists>r \<in> set rows. rowId r = i \<and> parentId r = Some p"
proof -
  from assms obtain r where "byIdMap rows i = Some r" "parentId r = Some p"
    by (auto simp: parentOf_def split: option.splits)
  then show ?thesis using byIdMap_Some by blast
qed

lemma ranked_step:
  "ranked rk rows \<Longrightarrow> parentOf (byIdMap rows) i = Some p \<Longrightarrow> rk p < rk i"
  using parentOf_Some[of rows i p] by (auto simp: ranked_def)

lemma ranked_filter: "ranked rk rows \<Longrightarrow> ranked rk (filter P rows)"
  by (simp add: ranked_def)

lemma rootWalk_total:
  assumes "ranked rk rows"
  shows "rootWalk (byIdMap rows) i \<noteq> None"
proof (induction "rk i" arbitrary: i rule: less_induct)
  case less
  show ?case
  proof (cases "parentOf (byIdMap rows) i")
    case None
    then show ?thesis by (subst rootWalk.simps) simp
  next
    case (Some p)
    show ?thesis
    proof (cases "p = [] \<or> byIdMap rows p = None")
      case True
      then show ?thesis using Some by (subst rootWalk.simps) simp
    next
      case False
      have "rk p < rk i" using assms Some by (rule ranked_step)
      then have "rootWalk (byIdMap rows) p \<noteq> None" by (rule less)
      then show ?thesis using Some False by (subst rootWalk.simps) simp
    qed
  qed
qed

lemma ancestorsLoop_total:
  assumes "ranked rk rows"
  shows "ancestorsLoop (byIdMap rows) i inc \<noteq> None"
proof (induction "rk i" arbitrary: i inc rule: less_induct)
  case less
  show ?case
  proof (cases "i = []")
    case True
    then show ?thesis by (subst ancestorsLoop.simps) simp
  next
    case nonempty: False
    show ?thesis
    proof (cases "parentOf (byIdMap rows) i")
      case None
      then show ?thesis using nonempty by (subst ancestorsLoop.simps) simp
    next
      case (Some p)
      show ?thesis
      proof (cases "p = [] \<or> byIdMap rows p = None")
        case True
        then show ?thesis using Some nonempty by (subst ancestorsLoop.simps) simp
      next
        case False
        have "rk p < rk i" using assms Some by (rule ranked_step)
        then have "ancestorsLoop (byIdMap rows) p (insert i inc) \<noteq> None" by (rule less)
        then show ?thesis using Some False nonempty by (subst ancestorsLoop.simps) simp
      qed
    qed
  qed
qed

lemma parentAncestorsLoop_total:
  assumes "ranked rk rows"
  shows "parentAncestorsLoop (byIdMap rows) i inc \<noteq> None"
proof (induction "rk i" arbitrary: i inc rule: less_induct)
  case less
  show ?case
  proof (cases "i = []")
    case True
    then show ?thesis by (subst parentAncestorsLoop.simps) simp
  next
    case nonempty: False
    show ?thesis
    proof (cases "parentOf (byIdMap rows) i")
      case None
      then show ?thesis using nonempty by (subst parentAncestorsLoop.simps) simp
    next
      case (Some p)
      show ?thesis
      proof (cases "p = [] \<or> byIdMap rows p = None")
        case True
        then show ?thesis using Some nonempty by (subst parentAncestorsLoop.simps) simp
      next
        case False
        have "rk p < rk i" using assms Some by (rule ranked_step)
        then have "parentAncestorsLoop (byIdMap rows) p
            (if byIdMap rows i \<noteq> None then insert i inc else inc) \<noteq> None" by (rule less)
        then show ?thesis using Some False nonempty by (subst parentAncestorsLoop.simps) simp
      qed
    qed
  qed
qed

lemma dropdownInclude_total:
  assumes "ranked rk rows"
  shows "dropdownInclude cm (byIdMap rows) ids inc \<noteq> None"
proof (induction ids arbitrary: inc)
  case Nil
  then show ?case by simp
next
  case (Cons i ids)
  from ancestorsLoop_total[OF assms, of i inc] obtain inc1
    where "ancestorsLoop (byIdMap rows) i inc = Some inc1" by blast
  then show ?case using Cons by simp
qed

lemma searchRoots_total:
  assumes "ranked rk rows"
  shows "searchRoots (byIdMap rows) q rs acc \<noteq> None"
proof (induction rs arbitrary: acc)
  case Nil
  then show ?case by simp
next
  case (Cons r rs)
  from rootWalk_total[OF assms, of "rowId r"] obtain c
    where "rootWalk (byIdMap rows) (rowId r) = Some c" by blast
  then show ?case using Cons by simp
qed

lemma keptFrom_refl: "keptFrom rows rows"
  unfolding keptFrom_def by (rule exI[of _ "\<lambda>r. True"]) simp

lemma keptFrom_nil: "keptFrom [] rows"
  unfolding keptFrom_def by (rule exI[of _ "\<lambda>r. False"]) simp

lemma keptFrom_filter: "keptFrom (filter P rows) rows"
  unfolding keptFrom_def by blast

lemma keptFrom_trans: "keptFrom a b \<Longrightarrow> keptFrom b c \<Longrightarrow> keptFrom a c"
  unfolding keptFrom_def by (metis filter_filter)

lemma keptFrom_set: "keptFrom out rows \<Longrightarrow> set out \<subseteq> set rows"
  unfolding keptFrom_def by auto

lemma keptFrom_distinct: "keptFrom out rows \<Longrightarrow> distinct (map rowId rows) \<Longrightarrow> distinct (map rowId out)"
  unfolding keptFrom_def by (auto simp: distinct_map_filter)

lemma keptFrom_ranked: "keptFrom out rows \<Longrightarrow> ranked rk rows \<Longrightarrow> ranked rk out"
  unfolding keptFrom_def by (auto simp: ranked_filter)

lemma filterToNodeBranch_sub:
  "filterToNodeBranch cm rows n = Some out \<Longrightarrow> keptFrom out rows"
  by (auto simp: filterToNodeBranch_def Let_def keptFrom_refl keptFrom_filter
      split: option.splits if_splits)

lemma filterToParentBranch_sub:
  "filterToParentBranch cm rows n = Some out \<Longrightarrow> keptFrom out rows"
  unfolding filterToParentBranch_def Let_def
  by (auto simp: keptFrom_refl keptFrom_filter split: option.splits if_splits)

lemma filterToDropdownBranch_sub:
  "filterToDropdownBranch cm rows n = Some out \<Longrightarrow> keptFrom out rows"
  unfolding filterToDropdownBranch_def Let_def
  by (auto simp: keptFrom_nil keptFrom_filter split: option.splits if_splits)

lemma applySearchFilter_sub:
  "applySearchFilter cm rows q = Some out \<Longrightarrow> keptFrom out rows"
  unfolding applySearchFilter_def Let_def
  by (auto simp: keptFrom_nil keptFrom_refl keptFrom_filter split: option.splits if_splits)

lemma filterToNodeBranch_total:
  "ranked rk rows \<Longrightarrow> filterToNodeBranch cm rows n \<noteq> None"
  using ancestorsLoop_total[of rk rows n "{}"]
  by (auto simp: filterToNodeBranch_def Let_def split: option.splits)

lemma filterToParentBranch_total:
  "ranked rk rows \<Longrightarrow> filterToParentBranch cm rows n \<noteq> None"
  using parentAncestorsLoop_total[of rk rows n "{}"]
  unfolding filterToParentBranch_def Let_def
  by (auto split: option.splits)

lemma filterToDropdownBranch_total:
  assumes "ranked rk rows"
  shows "filterToDropdownBranch cm rows n \<noteq> None"
proof -
  let ?roots = "foldl setAdd [] (map (dropdownCandidate (byIdMap rows)) (filter (dropdownMatches n) rows))"
  from dropdownInclude_total[OF assms, of cm ?roots "{}"] obtain inc
    where "dropdownInclude cm (byIdMap rows) ?roots {} = Some inc" by blast
  then show ?thesis unfolding filterToDropdownBranch_def Let_def by simp
qed

lemma applySearchFilter_total:
  assumes "ranked rk rows"
  shows "applySearchFilter cm rows q \<noteq> None"
proof -
  from searchRoots_total[OF assms, of "toLowerCase (trim q)" rows "[]"] obtain m
    where "searchRoots (byIdMap rows) (toLowerCase (trim q)) rows [] = Some m" by blast
  then show ?thesis unfolding applySearchFilter_def Let_def by simp
qed

lemma applyDropdownFilters_stages:
  "applyDropdownFilters v rows =
     Option.bind (hierarchyStage v rows) (\<lambda>r1. Option.bind (parentStage v r1) (dropdownStage v))"
  unfolding applyDropdownFilters_def hierarchyStage_def parentStage_def dropdownStage_def
  by (simp split: option.splits)

lemma hierarchyStage_sub: "hierarchyStage v rows = Some out \<Longrightarrow> keptFrom out rows"
  by (auto simp: hierarchyStage_def keptFrom_refl filterToNodeBranch_sub split: if_splits)

lemma parentStage_sub: "parentStage v rows = Some out \<Longrightarrow> keptFrom out rows"
  by (auto simp: parentStage_def keptFrom_refl filterToParentBranch_sub split: if_splits)

lemma dropdownStage_sub: "dropdownStage v rows = Some out \<Longrightarrow> keptFrom out rows"
  by (auto simp: dropdownStage_def keptFrom_refl filterToDropdownBranch_sub split: if_splits)

lemma hierarchyStage_total: "ranked rk rows \<Longrightarrow> hierarchyStage v rows \<noteq> None"
  using filterToNodeBranch_total[of rk rows "childrenMap v" "the (hierarchyFilterValue v)"]
  by (auto simp: hierarchyStage_def)

lemma parentStage_total: "ranked rk rows \<Longrightarrow> parentStage v rows \<noteq> None"
  using filterToParentBranch_total[of rk rows "childrenMap v" "the (parentFilterValue v)"]
  by (auto simp: parentStage_def)

lemma dropdownStage_total: "ranked rk rows \<Longrightarrow> dropdownStage v rows \<noteq> None"
  using filterToDropdownBranch_total[of rk rows "childrenMap v" "the (dropdownFilterValue v)"]
  by (auto simp: dropdownStage_def)

lemma applyDropdownFilters_sub:
  assumes "applyDropdownFilters v rows = Some out"
  shows "keptFrom out rows"
proof -
  from assms obtain r1 r2 where "hierarchyStage v rows = Some r1" "parentStage v r1 = Some r2"
    "dropdownStage v r2 = Some out"
    unfolding applyDropdownFilters_stages by (auto simp: bind_eq_Some_conv)
  then have "keptFrom r1 rows" "keptFrom r2 r1" "keptFrom out r2"
    by (simp_all add: hierarchyStage_sub parentStage_sub dropdownStage_sub)
  then show ?thesis using keptFrom_trans by blast
qed

lemma applyDropdownFilters_total:
  assumes "ranked rk rows"
  shows "applyDropdownFilters v rows \<noteq> None"
proof -
  from hierarchyStage_total[OF assms, of v] obtain r1
    where s1: "hierarchyStage v rows = Some r1" by blast
  have rk1: "ranked rk r1" using hierarchyStage_sub[OF s1] assms by (rule keptFrom_ranked)
  from parentStage_total[OF rk1, of v] obtain r2
    where s2: "parentStage v r1 = Some r2" by blast
  have rk2: "ranked rk r2" using parentStage_sub[OF s2] rk1 by (rule keptFrom_ranked)
  from dropdownStage_total[OF rk2, of v] obtain r3
    where s3: "dropdownStage v r2 = Some r3" by blast
  show ?thesis unfolding applyDropdownFilters_stages using s1 s2 s3 by simp
qed

lemma sourceRows_sub: "sourceRows v = Some src \<Longrightarrow> keptFrom src (allRows v)"
  unfolding sourceRows_def
  by (auto split: option.splits dest!: applyDropdownFilters_sub applySearchFilter_sub
      intro: keptFrom_trans)

lemma sourceRows_total:
  assumes "ranked rk (allRows v)"
  shows "sourceRows v \<noteq> None"
proof -
  from applyDropdownFilters_total[OF assms] obtain d
    where d: "applyDropdownFilters v (allRows v) = Some d" by blast
  have "ranked rk d" using applyDropdownFilters_sub[OF d] assms by (rule keptFrom_ranked)
  then have "applySearchFilter (childrenMap v) d (searchQuery v) \<noteq> None"
    by (rule applySearchFilter_total)
  then show ?thesis using d by (simp add: sourceRows_def)
qed

lemma cm_get_update:
  "cm_get (AList.update k v m) q = (if q = k then v else cm_get m q)"
  by (simp add: cm_get_def update_conv')

lemma buildChildrenMap_step_children:
  "set (cm_get (buildChildrenMap_step m r) q) =
     set (cm_get m q) \<union> {c. c = rowId r \<and> parentId r = Some q \<and> q \<noteq> []}"
  by (cases "parentId r") (auto simp: buildChildrenMap_step_def cm_get_update)

lemma foldl_children:
  "set (cm_get (foldl buildChildrenMap_step m rows) q) =
     set (cm_get m q) \<union> {c. \<exists>r \<in> set rows. c = rowId r \<and> parentId r = Some q \<and> q \<noteq> []}"
proof (induction rows arbitrary: m)
  case Nil
  then show ?case by simp
next
  case (Cons r rows)
  show ?case
    unfolding foldl_Cons Cons.IH buildChildrenMap_step_children by auto
qed

lemma buildChildrenMap_children:
  "c \<in> set (cm_get (buildChildrenMap rows) q) \<longleftrightarrow>
     (\<exists>r \<in> set rows. rowId r = c \<and> parentId r = Some q \<and> q \<noteq> [])"
  unfolding buildChildrenMap_def foldl_children by (auto simp: cm_get_def)

lemma visitLoop_mono: "visible \<subseteq> visitLoop cm collapsed stack visible"
proof (induction cm collapsed stack visible rule: visitLoop.induct)
  case (1 cm collapsed visible)
  then show ?case by simp
next
  case (2 cm collapsed i stack visible)
  then show ?case by (auto split: if_splits)
qed

lemma visitLoop_origin:
  "c \<in> visitLoop cm collapsed stack visible \<Longrightarrow>
     c \<in> visible \<or> c \<in> set stack \<or>
     (\<exists>q \<in> visitLoop cm collapsed stack visible. c \<in> set (cm_get cm q))"
proof (induction cm collapsed stack visible rule: visitLoop.induct)
  case (1 cm collapsed visible)
  then show ?case by simp
next
  case (2 cm collapsed i stack visible)
  show ?case
  proof (cases "i \<in> visible")
    case True
    then show ?thesis using 2 by auto
  next
    case unseen: False
    show ?thesis
    proof (cases "i \<in> collapsed")
      case True
      then show ?thesis using 2 unseen by auto
    next
      case False
      let ?R = "visitLoop cm collapsed (rev (cm_get cm i) @ stack) (insert i visible)"
      have R: "visitLoop cm collapsed (i # stack) visible = ?R" using unseen False by simp
      have iR: "i \<in> ?R" using visitLoop_mono[of "insert i visible" cm collapsed] by blast
      from 2(3)[OF unseen False] "2.prems" R
      have "c \<in> insert i visible \<or> c \<in> set (rev (cm_get cm i) @ stack) \<or>
            (\<exists>q \<in> ?R. c \<in> set (cm_get cm q))" by simp
      then show ?thesis unfolding R using iR by auto
    qed
  qed
qed

lemma distinct_rowId_eq:
  "distinct (map rowId rows) \<Longrightarrow> r \<in> set rows \<Longrightarrow> r' \<in> set rows \<Longrightarrow> rowId r = rowId r' \<Longrightarrow> r = r'"
  by (meson distinct_map inj_onD)

lemma drawnFrom_refl: "drawnFrom rows rows"
  unfolding drawnFrom_def by blast

lemma visibleFrom_connected:
  assumes d: "distinct (map rowId full)"
    and ne: "[] \<notin> rowId ` set full"
    and da: "distinct (map rowId rows)"
    and df: "drawnFrom rows full"
    and k: "keptFrom src rows"
    and r: "r \<in> set (visibleFrom (buildChildrenMap full) collapsed src)"
    and p: "parentId r = Some p" "p \<in> rowId ` set src"
  shows "p \<in> rowId ` set (visibleFrom (buildChildrenMap full) collapsed src)"
proof -
  let ?cm = "buildChildrenMap full"
  let ?R = "visitLoop ?cm collapsed (rev (map rowId (rootsOf src))) {}"
  have sub: "set src \<subseteq> set rows" using k by (rule keptFrom_set)
  have dsrc: "distinct (map rowId src)" using k da by (rule keptFrom_distinct)
  have rsrc: "r \<in> set src" and rR: "rowId r \<in> ?R" using r by (simp_all add: visibleFrom_def)
  have twin: "\<exists>u \<in> set full. rowId u = rowId w \<and> parentId u = parentId w" if "w \<in> set src" for w
    using that sub df unfolding drawnFrom_def by blast
  have pne: "p \<noteq> []"
  proof -
    from p(2) obtain w where "w \<in> set src" "rowId w = p" by auto
    then obtain u where "u \<in> set full" "rowId u = p" using twin by force
    then show ?thesis using ne by force
  qed
  from visitLoop_origin[OF rR]
  have "rowId r \<in> rowId ` set (rootsOf src) \<or> (\<exists>q \<in> ?R. rowId r \<in> set (cm_get ?cm q))" by auto
  then have "p \<in> ?R"
  proof
    assume "rowId r \<in> rowId ` set (rootsOf src)"
    then obtain r' where r': "r' \<in> set src" "rowId r' = rowId r"
      "\<not> truthy (parentId r') \<or> the (parentId r') \<notin> rowId ` set src"
      by (auto simp: rootsOf_def)
    have "r' = r" using dsrc r'(1) rsrc r'(2) by (rule distinct_rowId_eq)
    then have False using r'(3) p pne by (simp add: truthy_def)
    then show ?thesis ..
  next
    assume "\<exists>q \<in> ?R. rowId r \<in> set (cm_get ?cm q)"
    then obtain q where q: "q \<in> ?R" "rowId r \<in> set (cm_get ?cm q)" by blast
    from q(2) obtain r' where r': "r' \<in> set full" "rowId r' = rowId r" "parentId r' = Some q"
      unfolding buildChildrenMap_children by blast
    from twin[OF rsrc] obtain u where u: "u \<in> set full" "rowId u = rowId r"
      "parentId u = parentId r" by blast
    have "r' = u" using d r'(1) u(1) by (rule distinct_rowId_eq) (simp add: r'(2) u(2))
    then have "q = p" using r'(3) u(3) p(1) by simp
    then show ?thesis using q(1) by simp
  qed
  moreover from p(2) obtain rp where "rp \<in> set src" "rowId rp = p" by auto
  ultimately have "rp \<in> set (visibleFrom ?cm collapsed src)" by (simp add: visibleFrom_def)
  then show ?thesis using \<open>rowId rp = p\<close> by force
qed

text \<open>
  Claim C2. The rows have unique ids and the children index is built from rows \<open>full\<close> with
  unique, non-empty ids (what \<open>parseDataView\<close> delivers, line 344) that hold the id and parent of
  every row: the rows themselves, or the cached full row set of a drill refresh
  (lines 259-266). Then under any filter, search and collapse state: whenever the filter
  pipeline returns its source rows, the visible rows are computed, and every visible row whose
  parent id is the id of a source row has that parent among the visible rows. The pipeline
  returns whenever the rows have no parent cycle.
\<close>

theorem visible_set_connected:
  assumes "distinct (map rowId (allRows v))"
    and "distinct (map rowId full)"
    and "[] \<notin> rowId ` set full"
    and "drawnFrom (allRows v) full"
    and "childrenMap v = buildChildrenMap full"
  shows "(\<forall>src. sourceRows v = Some src \<longrightarrow>
           (\<exists>vis. computeVisibleRows v = Some vis \<and>
              (\<forall>r \<in> set vis. \<forall>p. parentId r = Some p \<longrightarrow> p \<in> rowId ` set src \<longrightarrow>
                 p \<in> rowId ` set vis)))
         \<and> ((\<exists>rk. ranked rk (allRows v)) \<longrightarrow> sourceRows v \<noteq> None)"
proof (intro conjI allI impI)
  fix src
  assume s: "sourceRows v = Some src"
  have k: "keptFrom src (allRows v)" using s by (rule sourceRows_sub)
  let ?vis = "visibleFrom (childrenMap v) (collapsedIds v) src"
  have "computeVisibleRows v = Some ?vis" using s by (simp add: computeVisibleRows_def)
  moreover have "\<forall>r \<in> set ?vis. \<forall>p. parentId r = Some p \<longrightarrow> p \<in> rowId ` set src \<longrightarrow>
                 p \<in> rowId ` set ?vis"
    unfolding assms(5) using visibleFrom_connected[OF assms(2,3,1,4) k] by blast
  ultimately show "\<exists>vis. computeVisibleRows v = Some vis \<and>
              (\<forall>r \<in> set vis. \<forall>p. parentId r = Some p \<longrightarrow> p \<in> rowId ` set src \<longrightarrow>
                 p \<in> rowId ` set vis)" by blast
next
  assume "\<exists>rk. ranked rk (allRows v)"
  then obtain rk where "ranked rk (allRows v)" by blast
  then show "sourceRows v \<noteq> None" by (rule sourceRows_total)
qed

theorem visible_set_connected_witness:
  "distinct (map rowId (allRows (exampleVisual\<lparr>searchQuery := ''D'', collapsedIds := {''B''}\<rparr>))) \<and>
   [] \<notin> rowId ` set (allRows (exampleVisual\<lparr>searchQuery := ''D'', collapsedIds := {''B''}\<rparr>)) \<and>
   childrenMap (exampleVisual\<lparr>searchQuery := ''D'', collapsedIds := {''B''}\<rparr>) =
     buildChildrenMap (allRows (exampleVisual\<lparr>searchQuery := ''D'', collapsedIds := {''B''}\<rparr>)) \<and>
   ranked exampleRank (allRows (exampleVisual\<lparr>searchQuery := ''D'', collapsedIds := {''B''}\<rparr>)) \<and>
   mkRow ''B'' (Some ''A'') \<in> set (the (computeVisibleRows (exampleVisual\<lparr>searchQuery := ''D'', collapsedIds := {''B''}\<rparr>))) \<and>
   ''A'' \<in> rowId ` set (the (computeVisibleRows (exampleVisual\<lparr>searchQuery := ''D'', collapsedIds := {''B''}\<rparr>))) \<and>
   sourceRows (exampleVisual\<lparr>searchQuery := ''D'', collapsedIds := {''B''}\<rparr>) \<noteq> None"
proof -
  let ?w = "exampleVisual\<lparr>searchQuery := ''D'', collapsedIds := {''B''}\<rparr>"
  have h1: "distinct (map rowId (allRows ?w))"
    by (simp add: exampleVisual_def exampleRows_def mkRow_def)
  have h2: "[] \<notin> rowId ` set (allRows ?w)"
    by (simp add: exampleVisual_def exampleRows_def mkRow_def)
  have h3: "childrenMap ?w = buildChildrenMap (allRows ?w)"
    by (simp add: exampleVisual_def)
  have h4: "ranked exampleRank (allRows ?w)"
    by (simp add: ranked_def exampleVisual_def exampleRows_def mkRow_def exampleRank_def)
  have vis: "computeVisibleRows ?w =
      Some [mkRow ''A'' None, mkRow ''B'' (Some ''A''), mkRow ''C'' (Some ''A'')]"
    by (rule example_search_collapsed_rows)
  then obtain src where src: "sourceRows ?w = Some src"
    by (auto simp: computeVisibleRows_def split: option.splits)
  have a: "''A'' \<in> rowId ` set src"
  proof -
    have "src = exampleRows"
      using src unfolding exampleVisual_def cm_example by (simp add: example_eval)
    then show ?thesis by (simp add: exampleRows_def mkRow_def)
  qed
  have b: "mkRow ''B'' (Some ''A'') \<in> set (the (computeVisibleRows ?w))" by (simp add: vis)
  have c: "parentId (mkRow ''B'' (Some ''A'')) = Some ''A''" by (simp add: mkRow_def)
  have h5: "drawnFrom (allRows ?w) (allRows ?w)" by (rule drawnFrom_refl)
  from visible_set_connected [OF h1 h1 h2 h5 h3] src a b c h4
  have "''A'' \<in> rowId ` set (the (computeVisibleRows ?w)) \<and> sourceRows ?w \<noteq> None"
    by (metis option.sel)
  then show ?thesis using h1 h2 h3 h4 b by blast
qed

lemma reparentFirst_ids: "map rowId (reparentFirst i ws) = map rowId ws"
  by (induction ws) auto

lemma foldl_reparentFirst_ids:
  "map rowId (foldl (\<lambda>w r. reparentFirst (rowId r) w) ws rs) = map rowId ws"
  by (induction rs arbitrary: ws) (auto simp: reparentFirst_ids)

lemma workingSet_ids:
  "map rowId (workingSet rows) =
     (if length (rootsOf rows) \<noteq> 1 then map rowId rows @ [syntheticRootId] else map rowId rows)"
  by (simp add: workingSet_def foldl_reparentFirst_ids synthetic_def)

lemma computeLayout_stratify_error:
  "stratify (workingSet rows) = Inl e \<Longrightarrow> computeLayout lay v rows af = failed v"
  by (simp add: computeLayout_def failed_def)

lemma synthetic_id: "rowId synthetic = syntheticRootId"
  by (simp add: synthetic_def)

lemma synthetic_parentless: "\<not> truthy (parentId synthetic)"
  by (simp add: synthetic_def truthy_def)

lemma reparented_truthy: "truthy (parentId (w\<lparr>parentId := Some syntheticRootId\<rparr>))"
  by (simp add: truthy_def syntheticRootId_def)

subsection \<open>The working set when ids may repeat\<close>

lemma reparentFirsts_empty: "reparentFirsts {} ws = ws"
  by (induction ws) auto

lemma reparentFirst_reparentFirsts:
  "reparentFirst i (reparentFirsts S ws) = reparentFirsts (insert i S) ws"
proof (induction ws arbitrary: S)
  case Nil
  then show ?case by simp
next
  case (Cons w ws)
  show ?case
  proof (cases "rowId w = i")
    case True
    have "S - {i} = insert i S - {i}" by auto
    then show ?thesis using True by (cases "i \<in> S") (simp_all add: Diff_insert0)
  next
    case False
    then have "insert i (S - {rowId w}) = insert i S - {rowId w}" by auto
    then show ?thesis using False Cons[of "S - {rowId w}"] Cons[of S] by simp
  qed
qed

lemma foldl_reparentFirsts:
  "foldl (\<lambda>w r. reparentFirst (rowId r) w) (reparentFirsts S ws) rs =
     reparentFirsts (S \<union> rowId ` set rs) ws"
  by (induction rs arbitrary: S) (simp_all add: reparentFirst_reparentFirsts)

lemma reparentFirsts_append:
  "S \<subseteq> rowId ` set ws \<Longrightarrow> reparentFirsts S (ws @ [s]) = reparentFirsts S ws @ [s]"
proof (induction ws arbitrary: S)
  case Nil
  then show ?case by simp
next
  case (Cons w ws)
  show ?case
  proof (cases "rowId w \<in> S")
    case True
    have "S - {rowId w} \<subseteq> rowId ` set ws" using Cons.prems by auto
    then show ?thesis using True Cons.IH by simp
  next
    case False
    then have "S \<subseteq> rowId ` set ws" using Cons.prems by auto
    then show ?thesis using False Cons.IH by simp
  qed
qed

lemma workingSet_shape:
  assumes "length (rootsOf rows) \<noteq> 1"
  shows "workingSet rows = reparentFirsts (rowId ` set (rootsOf rows)) rows @ [synthetic]"
proof -
  have sub: "rowId ` set (rootsOf rows) \<subseteq> rowId ` set rows" by (auto simp: rootsOf_def)
  have "foldl (\<lambda>w r. reparentFirst (rowId r) w) (reparentFirsts {} (rows @ [synthetic])) (rootsOf rows)
          = reparentFirsts ({} \<union> rowId ` set (rootsOf rows)) (rows @ [synthetic])"
    by (rule foldl_reparentFirsts)
  then show ?thesis using assms sub
    by (simp add: workingSet_def reparentFirsts_empty reparentFirsts_append)
qed

lemma reparentFirsts_cases:
  "c \<in> set (reparentFirsts S ws) \<Longrightarrow>
     c \<in> set ws \<or> (\<exists>u \<in> set ws. rowId u \<in> S \<and> c = u\<lparr>parentId := Some syntheticRootId\<rparr>)"
proof (induction ws arbitrary: S)
  case Nil
  then show ?case by simp
next
  case (Cons w ws)
  show ?case
  proof (cases "rowId w \<in> S")
    case True
    then consider "c = w\<lparr>parentId := Some syntheticRootId\<rparr>"
      | "c \<in> set (reparentFirsts (S - {rowId w}) ws)" using Cons.prems by auto
    then show ?thesis
    proof cases
      case 1
      then show ?thesis using True by auto
    next
      case 2
      from Cons.IH[OF 2] show ?thesis by auto
    qed
  next
    case False
    then consider "c = w" | "c \<in> set (reparentFirsts S ws)" using Cons.prems by auto
    then show ?thesis
    proof cases
      case 1
      then show ?thesis by simp
    next
      case 2
      from Cons.IH[OF 2] show ?thesis by auto
    qed
  qed
qed

lemma reparentFirsts_first:
  "i \<in> S \<Longrightarrow> i \<in> rowId ` set ws \<Longrightarrow>
     \<exists>u \<in> set ws. rowId u = i \<and> u\<lparr>parentId := Some syntheticRootId\<rparr> \<in> set (reparentFirsts S ws)"
proof (induction ws arbitrary: S)
  case Nil
  then show ?case by simp
next
  case (Cons w ws)
  show ?case
  proof (cases "rowId w = i")
    case True
    then show ?thesis using Cons.prems(1) by auto
  next
    case False
    then have in_ws: "i \<in> rowId ` set ws" using Cons.prems(2) by auto
    show ?thesis
    proof (cases "rowId w \<in> S")
      case True
      have "i \<in> S - {rowId w}" using Cons.prems(1) False by auto
      from Cons.IH[OF this in_ws] show ?thesis using True by auto
    next
      case notin: False
      from Cons.IH[OF Cons.prems(1) in_ws] show ?thesis using notin by auto
    qed
  qed
qed


lemma count_by_id:
  "length (filter (\<lambda>u. rowId u = p) ws) = length (filter (\<lambda>i. i = p) (map rowId ws))"
  by (induction ws) auto


subsection \<open>What a successful and a failed construction say\<close>

lemma linkRows_lookups:
  "linkRows W rs found = Inr out \<Longrightarrow> r \<in> set rs \<Longrightarrow> truthy (parentId r) \<Longrightarrow>
     length (filter (\<lambda>u. rowId u = the (parentId r)) W) = 1"
proof (induction rs arbitrary: found)
  case Nil
  then show ?case by simp
next
  case (Cons a rs)
  show ?case
  proof (cases "truthy (parentId a)")
    case True
    then obtain u where u: "filter (\<lambda>u. rowId u = the (parentId a)) W = [u]"
      and rest: "linkRows W rs found = Inr out"
      using Cons.prems(1) by (auto split: list.splits)
    show ?thesis
    proof (cases "r = a")
      case True
      then show ?thesis using u by simp
    next
      case False
      then have "r \<in> set rs" using Cons.prems(2) by simp
      then show ?thesis using Cons.IH[OF rest] Cons.prems(3) by blast
    qed
  next
    case False
    then have ra: "r \<noteq> a" using Cons.prems(3) by auto
    from False Cons.prems(1) have "linkRows W rs (Some a) = Inr out"
      by (auto split: option.splits)
    then show ?thesis using Cons.IH Cons.prems(2,3) ra by auto
  qed
qed

lemma linkRows_root:
  "linkRows W rs found = Inr out \<Longrightarrow>
     (case found of None \<Rightarrow> [] | Some r \<Rightarrow> [r]) @ filter (\<lambda>r. \<not> truthy (parentId r)) rs =
     (case out of None \<Rightarrow> [] | Some r \<Rightarrow> [r])"
proof (induction rs arbitrary: found)
  case Nil
  then show ?case by simp
next
  case (Cons a rs)
  show ?case
  proof (cases "truthy (parentId a)")
    case True
    then have "linkRows W rs found = Inr out"
      using Cons.prems by (auto split: list.splits)
    from Cons.IH[OF this] show ?thesis using True by simp
  next
    case False
    then have f: "found = None" and rest: "linkRows W rs (Some a) = Inr out"
      using Cons.prems by (auto split: option.splits)
    from Cons.IH[OF rest] show ?thesis using False f by simp
  qed
qed

lemma stratify_Inr:
  assumes "stratify W = Inr t"
  shows "\<exists>r0. filter (\<lambda>r. \<not> truthy (parentId r)) W = [r0] \<and> t = buildNode (length W) W 0 r0"
    and "\<And>r. r \<in> set W \<Longrightarrow> truthy (parentId r) \<Longrightarrow>
           length (filter (\<lambda>u. rowId u = the (parentId r)) W) = 1"
proof -
  from assms obtain r0 where l: "linkRows W W None = Inr (Some r0)"
    and t: "t = buildNode (length W) W 0 r0"
    by (auto simp: stratify_def Let_def split: sum.splits option.splits if_splits)
  from linkRows_root[OF l] have "filter (\<lambda>r. \<not> truthy (parentId r)) W = [r0]" by simp
  then show "\<exists>r0. filter (\<lambda>r. \<not> truthy (parentId r)) W = [r0] \<and> t = buildNode (length W) W 0 r0"
    using t by blast
  show "length (filter (\<lambda>u. rowId u = the (parentId r)) W) = 1"
    if "r \<in> set W" "truthy (parentId r)" for r
    using linkRows_lookups[OF l that] .
qed

lemma stratify_fails_lookup:
  assumes "r \<in> set W" and "truthy (parentId r)"
    and "length (filter (\<lambda>u. rowId u = the (parentId r)) W) \<noteq> 1"
  shows "\<exists>e. stratify W = Inl e"
proof (cases "stratify W")
  case (Inl e)
  then show ?thesis by blast
next
  case (Inr t)
  from stratify_Inr(2)[OF Inr assms(1,2)] assms(3) show ?thesis by simp
qed

lemmas layout_eval = computeLayout_def workingSet_def rootsOf_def stratify_def childRows_def
  toLayoutNode_def synthetic_def syntheticRootId_def truthy_def swapXY_def flatLayout_def
  mkRow_def Let_def

lemma dangling_working:
  "workingSet danglingRows =
     [mkRow ''A'' (Some ''__root__''), mkRow ''B'' (Some ''__root__''), synthetic]"
  by (simp add: danglingRows_def layout_eval)

lemma dangling_stratify:
  "stratify (workingSet danglingRows) =
     Inr (HNode synthetic 0 [HNode (mkRow ''A'' (Some ''__root__'')) 1 [],
                              HNode (mkRow ''B'' (Some ''__root__'')) 1 []])"
  unfolding dangling_working by (simp add: layout_eval)

subsection \<open>Repeated ids\<close>








text \<open>A repeated id below a collapsed node never reaches construction: with \<open>R\<close> collapsed
  the visible rows of \<open>repeatedLeafRows\<close> are the row \<open>R\<close> alone, and the layout succeeds.\<close>

lemma repeatedLeaf_collapsed:
  "computeVisibleRows ((loadedVisual repeatedLeafRows)\<lparr>collapsedIds := {''R''}\<rparr>) = Some [mkRow ''R'' None] \<and>
   map_option fst
     (computeLayoutFromState flatLayout ((loadedVisual repeatedLeafRows)\<lparr>collapsedIds := {''R''}\<rparr>) False None) =
     Some True"
proof -
  let ?v = "(loadedVisual repeatedLeafRows)\<lparr>collapsedIds := {''R''}\<rparr>"
  have vis: "computeVisibleRows ?v = Some [mkRow ''R'' None]"
    by (simp add: loadedVisual_def repeatedLeafRows_def exampleVisual_def mkRow_def
        filter_defs string_defs)
  have s: "stratify (workingSet [mkRow ''R'' None]) = Inr (HNode (mkRow ''R'' None) 0 [])"
    by (simp add: layout_eval)
  have "fst (computeLayout flatLayout ?v [mkRow ''R'' None] False)"
    unfolding computeLayout_def Let_def s by simp
  then have "map_option fst (computeLayoutFromState flatLayout ?v False None) = Some True"
    unfolding computeLayoutFromState_def vis Let_def by (simp add: truthy_def)
  then show ?thesis using vis by simp
qed




lemma buildNode_data [simp]: "hdata (buildNode f W k w) = w"
  by (cases f) simp_all

lemma buildNode_depth [simp]: "hdepth (buildNode f W k w) = k"
  by (cases f) simp_all

lemma eachBefore_self: "n \<in> set (eachBefore n)"
  by (cases n) simp

lemma eachBefore_child: "c \<in> set (hchildren n) \<Longrightarrow> set (eachBefore c) \<subseteq> set (eachBefore n)"
  by (cases n) auto

lemma buildNode_nodes:
  assumes step: "\<And>r j c. P r j \<Longrightarrow> c \<in> set (childRows W (rowId r)) \<Longrightarrow> P c (Suc j)"
  shows "P w k \<Longrightarrow> n \<in> set (eachBefore (buildNode f W k w)) \<Longrightarrow> P (hdata n) (hdepth n)"
proof (induction f arbitrary: w k)
  case 0
  then show ?case by simp
next
  case (Suc f)
  from Suc.prems(2) consider (top) "n = buildNode (Suc f) W k w"
    | (below) c where "c \<in> set (childRows W (rowId w))"
        "n \<in> set (eachBefore (buildNode f W (Suc k) c))"
    by auto
  then show ?case
  proof cases
    case top
    then show ?thesis using Suc.prems(1) by simp
  next
    case below
    have "P c (Suc k)" using Suc.prems(1) below(1) by (rule step)
    then show ?thesis using below(2) by (rule Suc.IH)
  qed
qed

lemma buildNode_children:
  "n \<in> set (eachBefore (buildNode f W k w)) \<Longrightarrow> c \<in> set (hchildren n) \<Longrightarrow>
     hdata c \<in> set (childRows W (rowId (hdata n))) \<and> hdepth c = Suc (hdepth n)"
proof (induction f arbitrary: w k)
  case 0
  then show ?case by simp
next
  case (Suc f)
  from Suc.prems(1) consider (top) "n = buildNode (Suc f) W k w"
    | (below) u where "u \<in> set (childRows W (rowId w))"
        "n \<in> set (eachBefore (buildNode f W (Suc k) u))"
    by auto
  then show ?case
  proof cases
    case top
    then show ?thesis using Suc.prems(2) by auto
  next
    case below
    then show ?thesis using Suc.IH Suc.prems(2) by blast
  qed
qed

lemma flatten_nodes: "map snd (flatten p t) = eachBefore t"
proof (induction p t rule: flatten.induct)
  case (1 p d k cs)
  have "concat (map (map snd \<circ> flatten (Some (rowId d))) cs) = concat (map eachBefore cs)"
    using 1 by (intro arg_cong[where f = concat] map_cong) auto
  then show ?case by (simp add: map_concat)
qed

lemma eachLinks_shape:
  "l \<in> set (eachLinks mk queue) \<Longrightarrow>
     \<exists>p n c. n \<in> (\<Union>e \<in> set queue. set (eachBefore (snd e))) \<and> c \<in> set (hchildren n) \<and>
             l = (mk p n, mk (Some (rowId (hdata n))) c)"
proof (induction mk queue rule: eachLinks.induct)
  case (1 mk)
  then show ?case by simp
next
  case (2 mk p n queue)
  from "2.prems" consider
      (here) "l \<in> set (map (\<lambda>c. (mk p n, mk (Some (rowId (hdata n))) c)) (hchildren n))"
    | (later) "l \<in> set (eachLinks mk (queue @ map (\<lambda>c. (Some (rowId (hdata n)), c)) (hchildren n)))"
    by auto
  then show ?case
  proof cases
    case here
    then obtain c where "c \<in> set (hchildren n)" "l = (mk p n, mk (Some (rowId (hdata n))) c)"
      by auto
    then show ?thesis using eachBefore_self[of n] by fastforce
  next
    case later
    from "2.IH"[OF later] obtain p' n' c' where
      n': "n' \<in> (\<Union>e \<in> set (queue @ map (\<lambda>c. (Some (rowId (hdata n)), c)) (hchildren n)).
                  set (eachBefore (snd e)))"
      and c': "c' \<in> set (hchildren n')" and l: "l = (mk p' n', mk (Some (rowId (hdata n'))) c')"
      by blast
    have "n' \<in> (\<Union>e \<in> set ((p, n) # queue). set (eachBefore (snd e)))"
      using n' eachBefore_child[of _ n] by auto
    then show ?thesis using c' l by blast
  qed
qed

lemma orient_id [simp]: "lnId (orient v n) = lnId n"
  by (simp add: orient_def swapXY_def)

lemma orient_depth [simp]: "depth (orient v n) = depth n"
  by (simp add: orient_def swapXY_def)

lemma view_update_outputs:
  "nodes (v\<lparr>scale := s, tx := a, ty := b\<rparr>) = nodes v \<and>
   links (v\<lparr>scale := s, tx := a, ty := b\<rparr>) = links v \<and>
   tableRows (v\<lparr>scale := s, tx := a, ty := b\<rparr>) = tableRows v"
  by simp

lemma fitToViewport_outputs:
  "nodes (fitToViewport v) = nodes v \<and> links (fitToViewport v) = links v \<and>
   tableRows (fitToViewport v) = tableRows v"
  unfolding fitToViewport_def Let_def
  by (simp only: view_update_outputs if_distrib[where f = nodes] if_distrib[where f = links]
      if_distrib[where f = tableRows] if_cancel)

lemma computeLayout_failure:
  assumes "stratify (workingSet rows) = Inl e"
  shows "fst (computeLayout lay v rows af) = False \<and> nodes (snd (computeLayout lay v rows af)) = [] \<and>
    links (snd (computeLayout lay v rows af)) = [] \<and> tableRows (snd (computeLayout lay v rows af)) = []"
  using assms by (simp add: computeLayout_def)

lemma computeLayout_success:
  assumes "stratify (workingSet rows) = Inr t" and "length (rootsOf rows) \<noteq> 1"
  shows "fst (computeLayout lay v rows af) = True"
    and "nodes (snd (computeLayout lay v rows af)) =
           map (orient v) (filter (\<lambda>n. lnId n \<noteq> syntheticRootId)
             (map (\<lambda>(p, n). toLayoutNode (lay t) 1 p n) (flatten None t)))"
    and "tableRows (snd (computeLayout lay v rows af)) =
           map (orient v) (filter (\<lambda>n. lnId n \<noteq> syntheticRootId)
             (map (\<lambda>(p, n). toLayoutNode (lay t) 1 p n) (flatten None t)))"
    and "links (snd (computeLayout lay v rows af)) =
           map (\<lambda>l. (orient v (fst l), orient v (snd l)))
             (filter (\<lambda>l. lnId (fst l) \<noteq> syntheticRootId)
               (eachLinks (toLayoutNode (lay t) 1) [(None, t)]))"
proof -
  let ?flat = "map (\<lambda>(p, n). toLayoutNode (lay t) 1 p n) (flatten None t)"
  let ?kept = "filter (\<lambda>n. lnId n \<noteq> syntheticRootId) ?flat"
  let ?lks = "filter (\<lambda>l. lnId (fst l) \<noteq> syntheticRootId)
               (eachLinks (toLayoutNode (lay t) 1) [(None, t)])"
  let ?v1 = "v\<lparr>nodes := map (orient v) ?kept,
               links := map (\<lambda>l. (orient v (fst l), orient v (snd l))) ?lks,
               tableRows := map (orient v) ?kept\<rparr>"
  have c: "computeLayout lay v rows af = (True, if af then fitToViewport ?v1 else ?v1)"
    using assms by (simp add: computeLayout_def Let_def orient_def)
  show "fst (computeLayout lay v rows af) = True" unfolding c by simp
  show "nodes (snd (computeLayout lay v rows af)) = map (orient v) ?kept"
    unfolding c by (cases af) (simp_all add: fitToViewport_outputs)
  show "tableRows (snd (computeLayout lay v rows af)) = map (orient v) ?kept"
    unfolding c by (cases af) (simp_all add: fitToViewport_outputs)
  show "links (snd (computeLayout lay v rows af)) =
          map (\<lambda>l. (orient v (fst l), orient v (snd l))) ?lks"
    unfolding c by (cases af) (simp_all add: fitToViewport_outputs)
qed

lemma flatten_self: "(p, n) \<in> set (flatten p n)"
  by (cases n) simp

lemma orient_parent [simp]: "lnParent (orient v n) = lnParent n"
  by (simp add: orient_def swapXY_def)

lemma count_zero: "length (filter (\<lambda>i. i = p) xs) = 0 \<longleftrightarrow> p \<notin> set xs"
  by (induction xs) auto

lemma two_roots_setup:
  assumes s: "stratify (workingSet rows) = Inr t" and n: "2 \<le> length (rootsOf rows)"
  shows "syntheticRootId \<notin> rowId ` set rows"
    and "workingSet rows = reparentFirsts (rowId ` set (rootsOf rows)) rows @ [synthetic]"
    and "t = buildNode (length (workingSet rows)) (workingSet rows) 0 synthetic"
proof -
  let ?S = "rowId ` set (rootsOf rows)"
  have n1: "length (rootsOf rows) \<noteq> 1" using n by simp
  show W: "workingSet rows = reparentFirsts ?S rows @ [synthetic]"
    using n1 by (rule workingSet_shape)
  from n obtain r where r: "r \<in> set (rootsOf rows)" by (cases "rootsOf rows") auto
  then have "rowId r \<in> ?S" "rowId r \<in> rowId ` set rows" by (auto simp: rootsOf_def)
  from reparentFirsts_first[OF this] obtain u where
    u: "u\<lparr>parentId := Some syntheticRootId\<rparr> \<in> set (reparentFirsts ?S rows)" by blast
  let ?c = "u\<lparr>parentId := Some syntheticRootId\<rparr>"
  have cW: "?c \<in> set (workingSet rows)" unfolding W using u by simp
  have "length (filter (\<lambda>w. rowId w = the (parentId ?c)) (workingSet rows)) = 1"
    using s cW reparented_truthy by (rule stratify_Inr(2))
  then have "length (filter (\<lambda>i. i = syntheticRootId) (map rowId rows @ [syntheticRootId])) = 1"
    unfolding count_by_id workingSet_ids using n1 by simp
  then have "length (filter (\<lambda>i. i = syntheticRootId) (map rowId rows)) = 0" by simp
  then show "syntheticRootId \<notin> rowId ` set rows" unfolding count_zero by simp
  from stratify_Inr(1)[OF s] obtain r0 where
    f: "filter (\<lambda>r. \<not> truthy (parentId r)) (workingSet rows) = [r0]" and
    t: "t = buildNode (length (workingSet rows)) (workingSet rows) 0 r0" by blast
  have "synthetic \<in> set (filter (\<lambda>r. \<not> truthy (parentId r)) (workingSet rows))"
    unfolding W by (simp add: synthetic_parentless)
  then have "r0 = synthetic" unfolding f by simp
  then show "t = buildNode (length (workingSet rows)) (workingSet rows) 0 synthetic"
    using t by simp
qed

lemma working_row_cases:
  assumes W: "workingSet rows = reparentFirsts (rowId ` set (rootsOf rows)) rows @ [synthetic]"
    and c: "c \<in> set (workingSet rows)"
  obtains (syn) "c = synthetic"
    | (rooted) u where "u \<in> set (rootsOf rows)" "rowId c = rowId u"
        "parentId c = Some syntheticRootId"
    | (inner) "c \<in> set rows"
proof -
  from c consider "c = synthetic" | "c \<in> set (reparentFirsts (rowId ` set (rootsOf rows)) rows)"
    unfolding W by auto
  then show ?thesis
  proof cases
    case 1
    then show ?thesis by (rule syn)
  next
    case 2
    from reparentFirsts_cases[OF 2] consider "c \<in> set rows"
      | w where "rowId w \<in> rowId ` set (rootsOf rows)" "c = w\<lparr>parentId := Some syntheticRootId\<rparr>"
      by blast
    then show ?thesis
    proof cases
      case 1
      then show ?thesis by (rule inner)
    next
      case 2
      from 2(1) obtain u where u: "u \<in> set (rootsOf rows)" "rowId w = rowId u" by auto
      show ?thesis using u(1) by (rule rooted) (simp_all add: 2(2) u(2))
    qed
  qed
qed

lemma placed_step:
  assumes s: "stratify (workingSet rows) = Inr t" and n: "2 \<le> length (rootsOf rows)"
    and P: "placed rows r j" and c: "c \<in> set (childRows (workingSet rows) (rowId r))"
  shows "placed rows c (Suc j)"
proof -
  note base = two_roots_setup[OF s n]
  have cW: "c \<in> set (workingSet rows)" and ct: "truthy (parentId c)"
    and cp: "the (parentId c) = rowId r"
    using c by (simp_all add: childRows_def)
  from P consider (top) "r = synthetic" "j = 0"
    | (real) r' where "r' \<in> set rows" "rowId r' = rowId r" "1 \<le> j" "hasDepth rows r' (j - 1)"
    by (auto simp: placed_def)
  then show ?thesis
  proof cases
    case top
    from base(2) cW have "\<exists>u \<in> set (rootsOf rows). rowId u = rowId c"
    proof (cases rule: working_row_cases)
      case syn
      then show ?thesis using ct by (simp add: synthetic_parentless)
    next
      case (rooted u)
      then show ?thesis by auto
    next
      case inner
      have "the (parentId c) \<notin> rowId ` set rows" using cp top(1) base(1) by (simp add: synthetic_id)
      then have "c \<in> set (rootsOf rows)" using inner by (simp add: rootsOf_def)
      then show ?thesis by blast
    qed
    then obtain u where u: "u \<in> set (rootsOf rows)" "rowId u = rowId c" by blast
    have "u \<in> set rows" using u(1) by (simp add: rootsOf_def)
    moreover have "hasDepth rows u 0" using u(1) by (rule hasDepth.root)
    ultimately show ?thesis using cW u(2) top(2) by (auto simp: placed_def)
  next
    case real
    have ne: "rowId r \<noteq> syntheticRootId" using real(1,2) base(1) by force
    from base(2) cW have "c \<in> set rows"
    proof (cases rule: working_row_cases)
      case syn
      then show ?thesis using ct by (simp add: synthetic_parentless)
    next
      case (rooted u)
      then show ?thesis using cp ne by simp
    next
      case inner
      then show ?thesis .
    qed
    then have "hasDepth rows c (Suc (j - 1))"
      using ct real(1) _ real(4) by (rule hasDepth.child) (simp add: real(2) cp)
    then have "hasDepth rows c (Suc j - 1)" using real(3) by simp
    then show ?thesis using cW \<open>c \<in> set rows\<close> by (auto simp: placed_def)
  qed
qed

lemma tree_nodes_placed:
  assumes s: "stratify (workingSet rows) = Inr t" and n: "2 \<le> length (rootsOf rows)"
    and h: "hn \<in> set (eachBefore t)"
  shows "placed rows (hdata hn) (hdepth hn)"
proof -
  note base = two_roots_setup[OF s n]
  have top: "placed rows synthetic 0" unfolding placed_def base(2) by simp
  have h': "hn \<in> set (eachBefore (buildNode (length (workingSet rows)) (workingSet rows) 0 synthetic))"
    using h base(3) by simp
  show ?thesis
    by (rule buildNode_nodes[where P = "placed rows", OF _ top h']) (rule placed_step[OF s n])
qed

lemma kept_node_depth:
  assumes s: "stratify (workingSet rows) = Inr t" and n: "2 \<le> length (rootsOf rows)"
    and h: "hn \<in> set (eachBefore t)" and k: "rowId (hdata hn) \<noteq> syntheticRootId"
  shows "\<exists>r \<in> set rows. rowId r = rowId (hdata hn) \<and> 1 \<le> hdepth hn \<and>
           hasDepth rows r (hdepth hn - 1)"
  using tree_nodes_placed[OF s n h] k by (auto simp: placed_def synthetic_def)

lemma synthetic_child_in_tree:
  assumes s: "stratify (workingSet rows) = Inr t" and n: "2 \<le> length (rootsOf rows)"
    and c: "c \<in> set (workingSet rows)" and p: "parentId c = Some syntheticRootId"
  shows "\<exists>hn. (Some syntheticRootId, hn) \<in> set (flatten None t) \<and> hdata hn = c \<and> hdepth hn = 1"
proof -
  note base = two_roots_setup[OF s n]
  let ?W = "workingSet rows"
  have c': "c \<in> set (childRows ?W (rowId synthetic))"
    using c p by (simp add: childRows_def truthy_def synthetic_def syntheticRootId_def)
  obtain f where f: "length ?W = Suc f" unfolding base(2) by simp
  let ?hn = "buildNode f ?W (Suc 0) c"
  have "(Some (rowId synthetic), ?hn) \<in> set (flatten (Some (rowId synthetic)) ?hn)"
    by (rule flatten_self)
  then have "(Some syntheticRootId, ?hn) \<in> set (flatten None t)"
    unfolding base(3) f using c'
    by (simp del: buildNode.simps add: buildNode.simps(2)[of f] synthetic_id) blast
  moreover have "hdata ?hn = c" "hdepth ?hn = 1" by simp_all
  ultimately show ?thesis by blast
qed

lemma root_in_tree:
  assumes s: "stratify (workingSet rows) = Inr t" and n: "2 \<le> length (rootsOf rows)"
    and r: "r \<in> set (rootsOf rows)"
  shows "\<exists>hn. (Some syntheticRootId, hn) \<in> set (flatten None t) \<and>
           rowId (hdata hn) = rowId r \<and> hdepth hn = 1"
proof -
  note base = two_roots_setup[OF s n]
  have "rowId r \<in> rowId ` set (rootsOf rows)" "rowId r \<in> rowId ` set rows"
    using r by (auto simp: rootsOf_def)
  from reparentFirsts_first[OF this] obtain u where
    u: "rowId u = rowId r"
       "u\<lparr>parentId := Some syntheticRootId\<rparr> \<in> set (reparentFirsts (rowId ` set (rootsOf rows)) rows)"
    by blast
  let ?c = "u\<lparr>parentId := Some syntheticRootId\<rparr>"
  have "?c \<in> set (workingSet rows)" unfolding base(2) using u(2) by simp
  moreover have "parentId ?c = Some syntheticRootId" by simp
  ultimately obtain hn where "(Some syntheticRootId, hn) \<in> set (flatten None t)"
    "hdata hn = ?c" "hdepth hn = 1"
    using synthetic_child_in_tree[OF s n] by blast
  then show ?thesis using u(1) by auto
qed

lemma reparentFirsts_member:
  "r \<in> set ws \<Longrightarrow>
     r \<in> set (reparentFirsts S ws) \<or>
     r\<lparr>parentId := Some syntheticRootId\<rparr> \<in> set (reparentFirsts S ws)"
  by (induction ws arbitrary: S) auto

lemma dangling_row_working:
  assumes s: "stratify (workingSet rows) = Inr t" and n: "2 \<le> length (rootsOf rows)"
    and r: "r \<in> set rows" and tr: "truthy (parentId r)"
    and dg: "the (parentId r) \<notin> rowId ` set rows"
  shows "r\<lparr>parentId := Some syntheticRootId\<rparr> \<in> set (workingSet rows)"
proof -
  note base = two_roots_setup[OF s n]
  have n1: "length (rootsOf rows) \<noteq> 1" using n by simp
  let ?S = "rowId ` set (rootsOf rows)"
  from reparentFirsts_member[OF r, of ?S] show ?thesis
  proof
    assume "r \<in> set (reparentFirsts ?S rows)"
    then have rW: "r \<in> set (workingSet rows)" unfolding base(2) by simp
    have "length (filter (\<lambda>u. rowId u = the (parentId r)) (workingSet rows)) = 1"
      using s rW tr by (rule stratify_Inr(2))
    then have one: "length (filter (\<lambda>i. i = the (parentId r)) (map rowId rows @ [syntheticRootId])) = 1"
      unfolding count_by_id workingSet_ids using n1 by simp
    have "length (filter (\<lambda>i. i = the (parentId r)) (map rowId rows)) = 0"
      unfolding count_zero using dg by simp
    then have "the (parentId r) = syntheticRootId" using one by (simp split: if_splits)
    moreover from tr obtain p where "parentId r = Some p"
      by (cases "parentId r") (auto simp: truthy_def)
    ultimately have "r\<lparr>parentId := Some syntheticRootId\<rparr> = r" by simp
    then show ?thesis using rW by simp
  next
    assume "r\<lparr>parentId := Some syntheticRootId\<rparr> \<in> set (reparentFirsts ?S rows)"
    then show ?thesis unfolding base(2) by simp
  qed
qed

lemma link_target_real:
  assumes s: "stratify (workingSet rows) = Inr t" and n: "2 \<le> length (rootsOf rows)"
    and l: "l \<in> set (eachLinks mk [(None, t)])"
    and mk: "\<And>p hn. lnId (mk p hn) = rowId (hdata hn)"
  shows "lnId (snd l) \<noteq> syntheticRootId"
proof -
  note base = two_roots_setup[OF s n]
  from eachLinks_shape[OF l] obtain p hn c where
    hn: "hn \<in> set (eachBefore t)" and c: "c \<in> set (hchildren hn)"
    and l': "l = (mk p hn, mk (Some (rowId (hdata hn))) c)" by auto
  have "hdata c \<in> set (childRows (workingSet rows) (rowId (hdata hn)))"
    using buildNode_children[of hn _ "workingSet rows" 0 synthetic c] hn c base(3) by simp
  then have cW: "hdata c \<in> set (workingSet rows)" and ct: "truthy (parentId (hdata c))"
    by (simp_all add: childRows_def)
  from base(2) cW have "rowId (hdata c) \<noteq> syntheticRootId"
  proof (cases rule: working_row_cases)
    case syn
    then show ?thesis using ct by (simp add: synthetic_parentless)
  next
    case (rooted u)
    have "u \<in> set rows" using rooted(1) by (simp add: rootsOf_def)
    then show ?thesis using rooted(2) base(1) by force
  next
    case inner
    then show ?thesis using base(1) by force
  qed
  then show ?thesis unfolding l' by (simp add: mk)
qed

subsection \<open>When construction succeeds\<close>

lemma reparentIf_id [simp]: "rowId (reparentIf S w) = rowId w"
  by (simp add: reparentIf_def)

lemma synthetic_truthy: "truthy (Some syntheticRootId)"
  by (simp add: truthy_def syntheticRootId_def)

lemma reparentFirsts_distinct:
  "distinct (map rowId ws) \<Longrightarrow> reparentFirsts S ws = map (reparentIf S) ws"
proof (induction ws arbitrary: S)
  case Nil
  then show ?case by simp
next
  case (Cons w ws)
  have d: "distinct (map rowId ws)" and fresh: "rowId w \<notin> rowId ` set ws"
    using Cons.prems by simp_all
  have "\<forall>u \<in> set ws. rowId u \<noteq> rowId w" using fresh by (metis imageI)
  then have same: "map (reparentIf (S - {rowId w})) ws = map (reparentIf S) ws"
    by (intro map_cong) (simp_all add: reparentIf_def)
  show ?case using Cons.IH[OF d] same by (simp add: reparentIf_def)
qed

lemma root_id_iff:
  assumes "distinct (map rowId rows)" and "w \<in> set rows"
  shows "rowId w \<in> rowId ` set (rootsOf rows) \<longleftrightarrow> w \<in> set (rootsOf rows)"
proof
  assume "rowId w \<in> rowId ` set (rootsOf rows)"
  then obtain u where u: "u \<in> set (rootsOf rows)" "rowId u = rowId w" by auto
  then have "u \<in> set rows" by (simp add: rootsOf_def)
  then have "u = w" using assms u(2) distinct_rowId_eq by blast
  then show "w \<in> set (rootsOf rows)" using u(1) by simp
qed simp

lemma count_distinct:
  "distinct (map rowId W) \<Longrightarrow> p \<in> rowId ` set W \<Longrightarrow>
     length (filter (\<lambda>u. rowId u = p) W) = 1"
proof (induction W)
  case Nil
  then show ?case by simp
next
  case (Cons w W)
  show ?case
  proof (cases "rowId w = p")
    case True
    then have "p \<notin> rowId ` set W" using Cons.prems(1) by auto
    then have "filter (\<lambda>u. rowId u = p) W = []" by (force simp: filter_empty_conv)
    then show ?thesis using True by simp
  next
    case False
    then show ?thesis using Cons by auto
  qed
qed

lemma linkRows_append:
  "linkRows W (rs @ ss) found =
     (case linkRows W rs found of Inl e \<Rightarrow> Inl e | Inr f \<Rightarrow> linkRows W ss f)"
  by (induction rs arbitrary: found) (auto split: list.splits option.splits)

lemma linkRows_parents:
  "(\<And>r. r \<in> set rs \<Longrightarrow>
       truthy (parentId r) \<and> length (filter (\<lambda>u. rowId u = the (parentId r)) W) = 1) \<Longrightarrow>
     linkRows W rs found = Inr found"
proof (induction rs)
  case Nil
  then show ?case by simp
next
  case (Cons a rs)
  have a: "truthy (parentId a)" "length (filter (\<lambda>u. rowId u = the (parentId a)) W) = 1"
    using Cons.prems[of a] by simp_all
  from a(2) obtain u where "filter (\<lambda>u. rowId u = the (parentId a)) W = [u]"
    by (cases "filter (\<lambda>u. rowId u = the (parentId a)) W") auto
  moreover have "linkRows W rs found = Inr found" using Cons.prems by (intro Cons.IH) simp
  ultimately show ?case using a(1) by simp
qed

lemma working_distinct:
  assumes d: "distinct (map rowId rows)" and ns: "syntheticRootId \<notin> rowId ` set rows"
    and n: "length (rootsOf rows) \<noteq> 1"
  shows "workingSet rows = map (reparentIf (rowId ` set (rootsOf rows))) rows @ [synthetic]"
    and "distinct (map rowId (workingSet rows))"
    and "rowId ` set (workingSet rows) = insert syntheticRootId (rowId ` set rows)"
proof -
  show "workingSet rows = map (reparentIf (rowId ` set (rootsOf rows))) rows @ [synthetic]"
    unfolding workingSet_shape[OF n] reparentFirsts_distinct[OF d] ..
  show "distinct (map rowId (workingSet rows))"
    unfolding workingSet_ids using d ns n by simp
  have "rowId ` set (workingSet rows) = set (map rowId (workingSet rows))" by simp
  also have "\<dots> = insert syntheticRootId (rowId ` set rows)"
    unfolding workingSet_ids using n by simp
  finally show "rowId ` set (workingSet rows) = insert syntheticRootId (rowId ` set rows)" .
qed

lemma reparentIf_cases:
  assumes d: "distinct (map rowId rows)" and u: "u \<in> set rows"
  obtains (rooted) "u \<in> set (rootsOf rows)"
      "reparentIf (rowId ` set (rootsOf rows)) u = u\<lparr>parentId := Some syntheticRootId\<rparr>"
    | (inner) "u \<notin> set (rootsOf rows)" "reparentIf (rowId ` set (rootsOf rows)) u = u"
      "truthy (parentId u)" "the (parentId u) \<in> rowId ` set rows"
proof (cases "u \<in> set (rootsOf rows)")
  case True
  then show ?thesis by (intro rooted) (auto simp: reparentIf_def)
next
  case False
  then have "rowId u \<notin> rowId ` set (rootsOf rows)" using root_id_iff[OF d u] by simp
  then have "reparentIf (rowId ` set (rootsOf rows)) u = u" by (simp add: reparentIf_def)
  moreover have "truthy (parentId u)" "the (parentId u) \<in> rowId ` set rows"
    using False u by (simp_all add: rootsOf_def)
  ultimately show ?thesis using False by (intro inner)
qed

lemma linkRows_working:
  assumes d: "distinct (map rowId rows)" and ns: "syntheticRootId \<notin> rowId ` set rows"
    and n: "length (rootsOf rows) \<noteq> 1"
  shows "linkRows (workingSet rows) (workingSet rows) None = Inr (Some synthetic)"
proof -
  note W = working_distinct[OF d ns n]
  let ?W = "workingSet rows"
  let ?rs = "map (reparentIf (rowId ` set (rootsOf rows))) rows"
  have each: "truthy (parentId w) \<and> length (filter (\<lambda>u. rowId u = the (parentId w)) ?W) = 1"
    if "w \<in> set ?rs" for w
  proof -
    from that obtain u where u: "u \<in> set rows" "w = reparentIf (rowId ` set (rootsOf rows)) u"
      by auto
    from d u(1) have "truthy (parentId w) \<and> the (parentId w) \<in> rowId ` set ?W"
    proof (cases rule: reparentIf_cases)
      case rooted
      then show ?thesis unfolding u(2) W(3) by (simp add: synthetic_truthy)
    next
      case inner
      then show ?thesis unfolding u(2) W(3) by simp
    qed
    then show ?thesis using count_distinct[OF W(2)] by blast
  qed
  have "linkRows ?W ?rs None = Inr None" using each by (rule linkRows_parents)
  then have "linkRows ?W (?rs @ [synthetic]) None = Inr (Some synthetic)"
    unfolding linkRows_append by (simp add: synthetic_parentless)
  then show ?thesis using W(1) by simp
qed

lemma buildNode_reaches_child:
  "n \<in> set (eachBefore (buildNode f W j r0)) \<Longrightarrow> hdepth n < j + f \<Longrightarrow>
   c \<in> set (childRows W (rowId (hdata n))) \<Longrightarrow>
     \<exists>c' \<in> set (eachBefore (buildNode f W j r0)). hdata c' = c \<and> hdepth c' = Suc (hdepth n)"
proof (induction f arbitrary: j r0)
  case 0
  then show ?case by simp
next
  case (Suc f)
  from Suc.prems(1) consider (top) "n = buildNode (Suc f) W j r0"
    | (below) u where "u \<in> set (childRows W (rowId r0))"
        "n \<in> set (eachBefore (buildNode f W (Suc j) u))"
    by auto
  then show ?case
  proof cases
    case top
    then have c: "c \<in> set (childRows W (rowId r0))" using Suc.prems(3) by simp
    let ?c = "buildNode f W (Suc j) c"
    have "?c \<in> set (eachBefore ?c)" by (rule eachBefore_self)
    then have "?c \<in> set (eachBefore (buildNode (Suc f) W j r0))" using c by auto
    moreover have "hdata ?c = c" "hdepth ?c = Suc (hdepth n)" using top by simp_all
    ultimately show ?thesis by blast
  next
    case below
    have "hdepth n < Suc j + f" using Suc.prems(2) by simp
    from Suc.IH[OF below(2) this Suc.prems(3)] obtain c' where
      "c' \<in> set (eachBefore (buildNode f W (Suc j) u))" "hdata c' = c" "hdepth c' = Suc (hdepth n)"
      by blast
    then show ?thesis using below(1) by auto
  qed
qed

lemma hasDepth_chain:
  assumes rk: "ranked rk rows"
  shows "hasDepth rows r k \<Longrightarrow>
     \<exists>A. A \<subseteq> rowId ` set rows \<and> card A = Suc k \<and> (\<forall>a \<in> A. rk a \<le> rk (rowId r))"
proof (induction rule: hasDepth.induct)
  case (root r)
  then have "rowId r \<in> rowId ` set rows" by (simp add: rootsOf_def)
  then have "{rowId r} \<subseteq> rowId ` set rows \<and> card {rowId r} = Suc 0 \<and>
             (\<forall>a \<in> {rowId r}. rk a \<le> rk (rowId r))" by simp
  then show ?case by blast
next
  case (child r q k)
  from child.IH obtain A where A: "A \<subseteq> rowId ` set rows" "card A = Suc k"
    "\<forall>a \<in> A. rk a \<le> rk (rowId q)" by blast
  from child.hyps(2) obtain p where p: "parentId r = Some p" by (cases "parentId r") (auto simp: truthy_def)
  then have "rk p < rk (rowId r)" using rk child.hyps(1) by (auto simp: ranked_def)
  then have lt: "rk (rowId q) < rk (rowId r)" using child.hyps(4) p by simp
  have fin: "finite A" using A(1) by (rule finite_subset) simp
  have "rowId r \<notin> A" using A(3) lt by auto
  then have "card (insert (rowId r) A) = Suc (Suc k)" using fin A(2) by simp
  moreover have "insert (rowId r) A \<subseteq> rowId ` set rows" using A(1) child.hyps(1) by auto
  moreover have "\<forall>a \<in> insert (rowId r) A. rk a \<le> rk (rowId r)" using A(3) lt by auto
  ultimately show ?case by blast
qed

lemma hasDepth_bound:
  assumes "ranked rk rows" and "hasDepth rows r k"
  shows "k < length rows"
proof -
  from hasDepth_chain[OF assms] obtain A where A: "A \<subseteq> rowId ` set rows" "card A = Suc k"
    by blast
  have "card A \<le> card (rowId ` set rows)" using A(1) by (intro card_mono) simp_all
  also have "\<dots> \<le> card (set rows)" by (intro card_image_le) simp
  also have "\<dots> \<le> length rows" by (rule card_length)
  finally show ?thesis using A(2) by simp
qed

lemma hasDepth_exists:
  assumes rk: "ranked rk rows"
  shows "r \<in> set rows \<Longrightarrow> \<exists>k. hasDepth rows r k"
proof (induction "rk (rowId r)" arbitrary: r rule: less_induct)
  case less
  show ?case
  proof (cases "r \<in> set (rootsOf rows)")
    case True
    then show ?thesis using hasDepth.root by blast
  next
    case False
    then have t: "truthy (parentId r)" and pin: "the (parentId r) \<in> rowId ` set rows"
      using less.prems by (simp_all add: rootsOf_def)
    from pin obtain q where q: "q \<in> set rows" "rowId q = the (parentId r)" by auto
    from t obtain p where p: "parentId r = Some p" by (cases "parentId r") (auto simp: truthy_def)
    then have "rk p < rk (rowId r)" using rk less.prems by (auto simp: ranked_def)
    then have "rk (rowId q) < rk (rowId r)" using q(2) p by simp
    from less.hyps[OF this q(1)] obtain k where "hasDepth rows q k" ..
    with less.prems t q have "hasDepth rows r (Suc k)" by (intro hasDepth.child)
    then show ?thesis ..
  qed
qed

lemma rows_in_tree:
  assumes d: "distinct (map rowId rows)" and ns: "syntheticRootId \<notin> rowId ` set rows"
    and n: "length (rootsOf rows) \<noteq> 1" and rk: "ranked rk rows"
  shows "hasDepth rows r k \<Longrightarrow>
     \<exists>hn \<in> set (eachBefore (buildNode (length (workingSet rows)) (workingSet rows) 0 synthetic)).
        hdata hn = reparentIf (rowId ` set (rootsOf rows)) r \<and> hdepth hn = Suc k"
proof (induction rule: hasDepth.induct)
  case (root r)
  note W = working_distinct[OF d ns n]
  let ?W = "workingSet rows"
  let ?t = "buildNode (length ?W) ?W 0 synthetic"
  let ?c = "reparentIf (rowId ` set (rootsOf rows)) r"
  have r: "r \<in> set rows" using root by (simp add: rootsOf_def)
  have c: "?c = r\<lparr>parentId := Some syntheticRootId\<rparr>" using root by (auto simp: reparentIf_def)
  have "?c \<in> set ?W" unfolding W(1) using r by simp
  then have "?c \<in> set (childRows ?W (rowId (hdata ?t)))"
    unfolding c by (simp add: childRows_def synthetic_truthy synthetic_id)
  moreover have "?t \<in> set (eachBefore ?t)" by (rule eachBefore_self)
  moreover have "hdepth ?t < 0 + length ?W" unfolding W(1) by simp
  ultimately have "\<exists>c' \<in> set (eachBefore ?t). hdata c' = ?c \<and> hdepth c' = Suc (hdepth ?t)"
    by (intro buildNode_reaches_child)
  then show ?case by simp
next
  case (child r q k)
  note W = working_distinct[OF d ns n]
  let ?W = "workingSet rows"
  let ?t = "buildNode (length ?W) ?W 0 synthetic"
  from child.IH obtain hq where hq: "hq \<in> set (eachBefore ?t)"
    "hdata hq = reparentIf (rowId ` set (rootsOf rows)) q" "hdepth hq = Suc k" by blast
  have "hasDepth rows r (Suc k)" using child.hyps by (intro hasDepth.child)
  then have "Suc k < length rows" using rk by (intro hasDepth_bound)
  then have b: "hdepth hq < 0 + length ?W" unfolding W(1) hq(3) by simp
  have "the (parentId r) \<in> rowId ` set rows" using child.hyps(3,4) by force
  then have "r \<notin> set (rootsOf rows)" using child.hyps(2) by (simp add: rootsOf_def)
  then have "rowId r \<notin> rowId ` set (rootsOf rows)" using root_id_iff[OF d child.hyps(1)] by simp
  then have same: "reparentIf (rowId ` set (rootsOf rows)) r = r" by (simp add: reparentIf_def)
  have "reparentIf (rowId ` set (rootsOf rows)) r \<in> set ?W" unfolding W(1) using child.hyps(1) by simp
  then have "r \<in> set (childRows ?W (rowId (hdata hq)))"
    unfolding same hq(2) using child.hyps(2,4) by (simp add: childRows_def)
  with hq(1) b have "\<exists>c' \<in> set (eachBefore ?t). hdata c' = r \<and> hdepth c' = Suc (hdepth hq)"
    by (intro buildNode_reaches_child)
  then show ?case unfolding same hq(3) .
qed

lemma stratify_succeeds:
  assumes d: "distinct (map rowId rows)" and ns: "syntheticRootId \<notin> rowId ` set rows"
    and n: "length (rootsOf rows) \<noteq> 1" and rk: "ranked rk rows"
  shows "\<exists>t. stratify (workingSet rows) = Inr t"
proof -
  note W = working_distinct[OF d ns n]
  let ?W = "workingSet rows"
  let ?t = "buildNode (length ?W) ?W 0 synthetic"
  have sub: "set ?W \<subseteq> hdata ` set (eachBefore ?t)"
  proof
    fix w assume "w \<in> set ?W"
    then consider "w = synthetic"
      | r where "r \<in> set rows" "w = reparentIf (rowId ` set (rootsOf rows)) r"
      unfolding W(1) by auto
    then show "w \<in> hdata ` set (eachBefore ?t)"
    proof cases
      case 1
      have "?t \<in> set (eachBefore ?t)" by (rule eachBefore_self)
      then have "hdata ?t \<in> hdata ` set (eachBefore ?t)" by (rule imageI)
      then show ?thesis using 1 by simp
    next
      case 2
      from hasDepth_exists[OF rk 2(1)] obtain k where "hasDepth rows r k" ..
      from rows_in_tree[OF d ns n rk this] show ?thesis using 2(2) by force
    qed
  qed
  have "distinct ?W" using W(2) by (rule distinct_map[THEN iffD1, THEN conjunct1])
  then have "length ?W = card (set ?W)" by (simp add: distinct_card)
  also have "\<dots> \<le> card (hdata ` set (eachBefore ?t))" using sub by (intro card_mono) simp_all
  also have "\<dots> \<le> card (set (eachBefore ?t))" by (intro card_image_le) simp
  also have "\<dots> \<le> length (eachBefore ?t)" by (rule card_length)
  finally have "\<not> length (eachBefore ?t) < length ?W" by simp
  then have "stratify ?W = Inr ?t"
    unfolding stratify_def linkRows_working[OF d ns n] by (simp add: Let_def)
  then show ?thesis ..
qed

text \<open>Claim C5 as stated fails: row \<open>B\<close> of \<open>danglingRows\<close> names a parent that is no row, and
  the layout succeeds with \<open>B\<close> at depth 0 beside \<open>A\<close>.\<close>

theorem dangling_parent_rendered_counterexample:
  "fst (computeLayout flatLayout exampleVisual danglingRows False) = True \<and>
   map lnId (nodes (snd (computeLayout flatLayout exampleVisual danglingRows False))) = [''A'', ''B''] \<and>
   map depth (nodes (snd (computeLayout flatLayout exampleVisual danglingRows False))) = [0, 0]"
proof -
  have r: "length (rootsOf danglingRows) \<noteq> 1"
    by (simp add: danglingRows_def rootsOf_def mkRow_def truthy_def)
  show ?thesis
    unfolding computeLayout_def Let_def dangling_stratify
    using r by (simp add: exampleVisual_def toLayoutNode_def mkRow_def synthetic_def syntheticRootId_def)
qed

text \<open>
  Claim C5, as the code has it. A row whose parent id is the id of no row is a root
  (lines 752-753). When it is the only root, \<open>computeLayout\<close> returns \<open>false\<close> with empty node,
  link and table lists and the invalid-hierarchy message. When the rows do not have exactly
  one root: whenever \<open>computeLayout\<close> returns \<open>true\<close>, the node list has a node with the id,
  label and selection id of the row, at depth 0, whose parent is the synthetic root; and
  \<open>computeLayout\<close> does return \<open>true\<close> when ids are unique, none is the synthetic root id and
  the rows have no parent cycle.
\<close>

theorem dangling_parent_is_root:
  assumes "r \<in> set rows" and "truthy (parentId r)" and "the (parentId r) \<notin> rowId ` set rows"
  shows "r \<in> set (rootsOf rows)
     \<and> (length (rootsOf rows) = 1 \<longrightarrow>
          computeLayout lay v rows autoFit =
            (False, v\<lparr>nodes := [], links := [], tableRows := [], message := Some InvalidHierarchy\<rparr>))
     \<and> (length (rootsOf rows) \<noteq> 1 \<and> fst (computeLayout lay v rows autoFit) \<longrightarrow>
          (\<exists>n \<in> set (nodes (snd (computeLayout lay v rows autoFit))).
             lnId n = rowId r \<and> lnLabel n = label r \<and> lnSelectionId n = selectionId r \<and>
             depth n = 0 \<and> lnParent n = Some syntheticRootId))
     \<and> (length (rootsOf rows) \<noteq> 1 \<and> distinct (map rowId rows) \<and>
          syntheticRootId \<notin> rowId ` set rows \<and> ranked rk rows \<longrightarrow>
          fst (computeLayout lay v rows autoFit))"
proof (intro conjI impI)
  show root: "r \<in> set (rootsOf rows)" using assms by (simp add: rootsOf_def)
  {
    assume one: "length (rootsOf rows) = 1"
    then have ws: "workingSet rows = rows" by (simp add: workingSet_def)
    have "filter (\<lambda>u. rowId u = the (parentId r)) rows = []"
      using assms(3) by (force simp: filter_empty_conv)
    then have "length (filter (\<lambda>u. rowId u = the (parentId r)) (workingSet rows)) \<noteq> 1"
      unfolding ws by simp
    with assms(1,2) have "\<exists>e. stratify (workingSet rows) = Inl e"
      unfolding ws by (intro stratify_fails_lookup)
    then obtain e where "stratify (workingSet rows) = Inl e" ..
    then have "computeLayout lay v rows autoFit = failed v" by (rule computeLayout_stratify_error)
    then show "computeLayout lay v rows autoFit =
            (False, v\<lparr>nodes := [], links := [], tableRows := [], message := Some InvalidHierarchy\<rparr>)"
      by (simp add: failed_def)
  }
  {
    assume a: "length (rootsOf rows) \<noteq> 1 \<and> fst (computeLayout lay v rows autoFit)"
    then have n1: "length (rootsOf rows) \<noteq> 1" and ok: "fst (computeLayout lay v rows autoFit)"
      by simp_all
    have "length (rootsOf rows) \<noteq> 0" using root by auto
    then have n: "2 \<le> length (rootsOf rows)" using n1 by linarith
    obtain t where s: "stratify (workingSet rows) = Inr t"
      using ok computeLayout_failure[of rows _ lay v autoFit] by (cases "stratify (workingSet rows)") auto
    note out = computeLayout_success[OF s n1, of lay v autoFit]
    note base = two_roots_setup[OF s n]
    let ?mk = "toLayoutNode (lay t) 1"
    let ?c = "r\<lparr>parentId := Some syntheticRootId\<rparr>"
    have "?c \<in> set (workingSet rows)" using s n assms by (rule dangling_row_working)
    moreover have "parentId ?c = Some syntheticRootId" by simp
    ultimately obtain hn where
      ph: "(Some syntheticRootId, hn) \<in> set (flatten None t)"
      and hn: "hdata hn = ?c" "hdepth hn = 1"
      using synthetic_child_in_tree[OF s n] by blast
    have ne: "rowId r \<noteq> syntheticRootId" using assms(1) base(1) by force
    let ?n = "orient v (?mk (Some syntheticRootId) hn)"
    have "?n \<in> set (nodes (snd (computeLayout lay v rows autoFit)))"
      unfolding out(2) using ph ne hn(1) by (force simp: toLayoutNode_def)
    moreover have "lnId ?n = rowId r" "depth ?n = 0" "lnParent ?n = Some syntheticRootId"
      using hn by (simp_all add: toLayoutNode_def)
    moreover have "lnLabel ?n = label r" "lnSelectionId ?n = selectionId r"
      using hn by (simp_all add: toLayoutNode_def orient_def swapXY_def)
    ultimately show "\<exists>n \<in> set (nodes (snd (computeLayout lay v rows autoFit))).
             lnId n = rowId r \<and> lnLabel n = label r \<and> lnSelectionId n = selectionId r \<and>
             depth n = 0 \<and> lnParent n = Some syntheticRootId"
      by blast
  }
  {
    assume a: "length (rootsOf rows) \<noteq> 1 \<and> distinct (map rowId rows) \<and>
          syntheticRootId \<notin> rowId ` set rows \<and> ranked rk rows"
    then obtain t where s: "stratify (workingSet rows) = Inr t"
      using stratify_succeeds[of rows rk] by blast
    from a have "length (rootsOf rows) \<noteq> 1" by simp
    with s show "fst (computeLayout lay v rows autoFit)"
      using computeLayout_success(1)[of rows t lay v autoFit] by simp
  }
qed

theorem dangling_parent_is_root_witness:
  "mkRow ''B'' (Some ''X'') \<in> set danglingRows \<and> truthy (parentId (mkRow ''B'' (Some ''X''))) \<and>
   the (parentId (mkRow ''B'' (Some ''X''))) \<notin> rowId ` set danglingRows \<and>
   length (rootsOf danglingRows) \<noteq> 1 \<and> distinct (map rowId danglingRows) \<and>
   syntheticRootId \<notin> rowId ` set danglingRows \<and> ranked danglingRank danglingRows \<and>
   mkRow ''B'' (Some ''X'') \<in> set (rootsOf danglingRows) \<and>
   fst (computeLayout flatLayout exampleVisual danglingRows False) \<and>
   (\<exists>n. n \<in> set (nodes (snd (computeLayout flatLayout exampleVisual danglingRows False))) \<and>
        lnId n = ''B'' \<and> lnLabel n = ''B'' \<and> lnSelectionId n = 0 \<and> depth n = 0 \<and>
        lnParent n = Some syntheticRootId) \<and>
   length (rootsOf [mkRow ''B'' (Some ''X'')]) = 1 \<and>
   computeLayout flatLayout exampleVisual [mkRow ''B'' (Some ''X'')] True =
     (False, exampleVisual\<lparr>nodes := [], links := [], tableRows := [],
                            message := Some InvalidHierarchy\<rparr>)"
proof -
  let ?b = "mkRow ''B'' (Some ''X'')"
  have h1: "?b \<in> set danglingRows" by (simp add: danglingRows_def)
  have h2: "truthy (parentId ?b)" by (simp add: mkRow_def truthy_def)
  have h3: "the (parentId ?b) \<notin> rowId ` set danglingRows" by (simp add: danglingRows_def mkRow_def)
  have h4: "length (rootsOf danglingRows) \<noteq> 1"
    by (simp add: danglingRows_def rootsOf_def mkRow_def truthy_def)
  have h5: "distinct (map rowId danglingRows)" by (simp add: danglingRows_def mkRow_def)
  have h6: "syntheticRootId \<notin> rowId ` set danglingRows"
    by (simp add: danglingRows_def mkRow_def syntheticRootId_def)
  have h7: "ranked danglingRank danglingRows"
    by (simp add: ranked_def danglingRows_def mkRow_def danglingRank_def)
  have fields: "rowId ?b = ''B''" "label ?b = ''B''" "selectionId ?b = 0" by (simp_all add: mkRow_def)
  have g1: "?b \<in> set [?b]" by simp
  have g3: "the (parentId ?b) \<notin> rowId ` set [?b]" by (simp add: mkRow_def)
  have g4: "length (rootsOf [?b]) = 1" by (simp add: rootsOf_def mkRow_def truthy_def)
  note inst = dangling_parent_is_root [OF h1 h2 h3, of flatLayout exampleVisual False danglingRank]
  from inst h4 h5 h6 h7
  have ok: "fst (computeLayout flatLayout exampleVisual danglingRows False)" by blast
  from inst h4 ok
  have "?b \<in> set (rootsOf danglingRows) \<and>
     (\<exists>n. n \<in> set (nodes (snd (computeLayout flatLayout exampleVisual danglingRows False))) \<and>
        lnId n = rowId ?b \<and> lnLabel n = label ?b \<and> lnSelectionId n = selectionId ?b \<and>
        depth n = 0 \<and> lnParent n = Some syntheticRootId)"
    by blast
  then have a: "?b \<in> set (rootsOf danglingRows) \<and>
     (\<exists>n. n \<in> set (nodes (snd (computeLayout flatLayout exampleVisual danglingRows False))) \<and>
        lnId n = ''B'' \<and> lnLabel n = ''B'' \<and> lnSelectionId n = 0 \<and> depth n = 0 \<and>
        lnParent n = Some syntheticRootId)"
    unfolding fields .
  from dangling_parent_is_root [OF g1 h2 g3, of flatLayout exampleVisual True danglingRank] g4
  have b: "computeLayout flatLayout exampleVisual [?b] True =
     (False, exampleVisual\<lparr>nodes := [], links := [], tableRows := [],
                            message := Some InvalidHierarchy\<rparr>)" by blast
  show ?thesis using h1 h2 h3 h4 h5 h6 h7 ok a b g4 by blast
qed

lemma hasDepth_unique:
  assumes d: "distinct (map rowId rows)"
  shows "hasDepth rows r j \<Longrightarrow> hasDepth rows r k \<Longrightarrow> j = k"
proof (induction arbitrary: k rule: hasDepth.induct)
  case (root r)
  from root.prems show ?case
  proof (cases rule: hasDepth.cases)
    case root
    then show ?thesis by simp
  next
    case (child q k')
    then have "the (parentId r) \<in> rowId ` set rows" by force
    then show ?thesis using root.hyps child(3) by (simp add: rootsOf_def)
  qed
next
  case (child r q j)
  from child.prems show ?case
  proof (cases rule: hasDepth.cases)
    case root
    have "the (parentId r) \<in> rowId ` set rows" using child.hyps(3,4) by force
    then show ?thesis using root child.hyps(2) by (simp add: rootsOf_def)
  next
    case (child q' k')
    have "q' = q" using d child(4) child.hyps(3) child(5) child.hyps(4)
      by (intro distinct_rowId_eq[OF d]) simp_all
    then show ?thesis using child(1,6) child.IH by simp
  qed
qed

text \<open>
  Claim C3. For rows with two or more roots, the node, link and table lists that
  \<open>computeLayout\<close> leaves never contain the synthetic root id (neither as a node nor as an end of
  a link), the table list is the node list, and when the layout succeeds every root has a node
  of depth 0 and the depth of every node is the depth of its row in the forest of the rows.
\<close>

theorem synthetic_root_transparent:
  assumes "2 \<le> length (rootsOf rows)"
  shows "syntheticRootId \<notin> lnId ` set (nodes (snd (computeLayout lay v rows autoFit)))
     \<and> syntheticRootId \<notin> lnId ` set (tableRows (snd (computeLayout lay v rows autoFit)))
     \<and> syntheticRootId \<notin> lnId ` fst ` set (links (snd (computeLayout lay v rows autoFit)))
     \<and> syntheticRootId \<notin> lnId ` snd ` set (links (snd (computeLayout lay v rows autoFit)))
     \<and> tableRows (snd (computeLayout lay v rows autoFit)) = nodes (snd (computeLayout lay v rows autoFit))
     \<and> (fst (computeLayout lay v rows autoFit) \<longrightarrow>
          (\<forall>r \<in> set (rootsOf rows).
             \<exists>n \<in> set (nodes (snd (computeLayout lay v rows autoFit))). lnId n = rowId r \<and> depth n = 0)
        \<and> (\<forall>n \<in> set (nodes (snd (computeLayout lay v rows autoFit))).
             \<exists>r \<in> set rows. rowId r = lnId n \<and> 0 \<le> depth n \<and> hasDepth rows r (nat (depth n))))"
proof (cases "stratify (workingSet rows)")
  case (Inl e)
  from computeLayout_failure[OF Inl, of lay v autoFit] show ?thesis by simp
next
  case (Inr t)
  have n: "length (rootsOf rows) \<noteq> 1" using assms by simp
  note out = computeLayout_success[OF Inr n, of lay v autoFit]
  note base = two_roots_setup[OF Inr assms]
  let ?mk = "toLayoutNode (lay t) 1"
  have mk_id: "\<And>p hn. lnId (?mk p hn) = rowId (hdata hn)" by (simp add: toLayoutNode_def)
  have mk_depth: "\<And>p hn. depth (?mk p hn) = int (hdepth hn) - 1" by (simp add: toLayoutNode_def)
  have node_shape: "\<exists>p hn. hn \<in> set (eachBefore t) \<and> m = orient v (?mk p hn) \<and>
                     rowId (hdata hn) \<noteq> syntheticRootId"
    if "m \<in> set (nodes (snd (computeLayout lay v rows autoFit)))" for m
  proof -
    from that obtain p hn where ph: "(p, hn) \<in> set (flatten None t)" and m: "m = orient v (?mk p hn)"
      and k: "lnId (?mk p hn) \<noteq> syntheticRootId"
      unfolding out(2) by auto
    have "hn \<in> set (map snd (flatten None t))" using ph by force
    then have "hn \<in> set (eachBefore t)" unfolding flatten_nodes .
    then show ?thesis using m k by (auto simp: mk_id)
  qed
  have c1: "syntheticRootId \<notin> lnId ` set (nodes (snd (computeLayout lay v rows autoFit)))"
    unfolding out(2) by auto
  have c2: "tableRows (snd (computeLayout lay v rows autoFit)) = nodes (snd (computeLayout lay v rows autoFit))"
    unfolding out(2) out(3) ..
  have c3: "syntheticRootId \<notin> lnId ` fst ` set (links (snd (computeLayout lay v rows autoFit)))"
    unfolding out(4) by (auto simp del: eachLinks.simps)
  have c4: "syntheticRootId \<notin> lnId ` snd ` set (links (snd (computeLayout lay v rows autoFit)))"
  proof
    assume "syntheticRootId \<in> lnId ` snd ` set (links (snd (computeLayout lay v rows autoFit)))"
    then obtain l where l: "l \<in> set (eachLinks ?mk [(None, t)])" "lnId (snd l) = syntheticRootId"
      unfolding out(4) by (auto simp del: eachLinks.simps)
    have "lnId (snd l) \<noteq> syntheticRootId"
      using Inr assms l(1) by (rule link_target_real) (rule mk_id)
    then show False using l(2) by simp
  qed
  have c5: "\<exists>m \<in> set (nodes (snd (computeLayout lay v rows autoFit))). lnId m = rowId r \<and> depth m = 0"
    if r: "r \<in> set (rootsOf rows)" for r
  proof -
    from root_in_tree[OF Inr assms r] obtain p hn where ph: "(p, hn) \<in> set (flatten None t)"
      and hn: "rowId (hdata hn) = rowId r" "hdepth hn = 1" by blast
    have "r \<in> set rows" using r by (simp add: rootsOf_def)
    then have ne: "rowId r \<noteq> syntheticRootId" using base(1) by force
    have "orient v (?mk p hn) \<in> set (nodes (snd (computeLayout lay v rows autoFit)))"
      unfolding out(2) using ph ne hn(1) by (force simp: mk_id)
    moreover have "lnId (orient v (?mk p hn)) = rowId r" "depth (orient v (?mk p hn)) = 0"
      using hn by (simp_all add: mk_id mk_depth)
    ultimately show ?thesis by blast
  qed
  have c6: "\<exists>r \<in> set rows. rowId r = lnId m \<and> 0 \<le> depth m \<and> hasDepth rows r (nat (depth m))"
    if m: "m \<in> set (nodes (snd (computeLayout lay v rows autoFit)))" for m
  proof -
    from node_shape[OF m] obtain p hn where hn: "hn \<in> set (eachBefore t)"
      and m': "m = orient v (?mk p hn)" and k: "rowId (hdata hn) \<noteq> syntheticRootId" by blast
    from kept_node_depth[OF Inr assms hn k] obtain r where r: "r \<in> set rows"
      "rowId r = rowId (hdata hn)" "1 \<le> hdepth hn" "hasDepth rows r (hdepth hn - 1)" by blast
    have "depth m = int (hdepth hn) - 1" unfolding m' by (simp add: mk_depth)
    then have "0 \<le> depth m" "nat (depth m) = hdepth hn - 1" using r(3) by simp_all
    moreover have "lnId m = rowId r" unfolding m' using r(2) by (simp add: mk_id)
    ultimately show ?thesis using r(1,4) by auto
  qed
  show ?thesis using c1 c2 c3 c4 c5 c6 by simp
qed

lemma twoRoots_working:
  "workingSet twoRoots =
     [mkRow ''A'' (Some ''__root__''), mkRow ''B'' (Some ''__root__''), mkRow ''C'' (Some ''B''),
      synthetic]"
  by (simp add: twoRoots_def layout_eval)

lemma twoRoots_stratify:
  "stratify (workingSet twoRoots) =
     Inr (HNode synthetic 0 [HNode (mkRow ''A'' (Some ''__root__'')) 1 [],
                              HNode (mkRow ''B'' (Some ''__root__'')) 1
                                [HNode (mkRow ''C'' (Some ''B'')) 2 []]])"
  unfolding twoRoots_working by (simp add: layout_eval)

theorem synthetic_root_transparent_witness:
  "2 \<le> length (rootsOf twoRoots) \<and>
   fst (computeLayout flatLayout exampleVisual twoRoots False) \<and>
   mkRow ''B'' None \<in> set (rootsOf twoRoots) \<and>
   syntheticRootId \<notin> lnId ` set (nodes (snd (computeLayout flatLayout exampleVisual twoRoots False))) \<and>
   (\<exists>n. n \<in> set (nodes (snd (computeLayout flatLayout exampleVisual twoRoots False))) \<and>
        lnId n = ''B'' \<and> depth n = 0) \<and>
   map lnId (nodes (snd (computeLayout flatLayout exampleVisual twoRoots False))) = [''A'', ''B'', ''C''] \<and>
   map depth (nodes (snd (computeLayout flatLayout exampleVisual twoRoots False))) = [0, 0, 1]"
proof -
  have h: "2 \<le> length (rootsOf twoRoots)"
    by (simp add: twoRoots_def rootsOf_def mkRow_def truthy_def)
  have r: "length (rootsOf twoRoots) \<noteq> 1" using h by simp
  have ok: "fst (computeLayout flatLayout exampleVisual twoRoots False) \<and>
     map lnId (nodes (snd (computeLayout flatLayout exampleVisual twoRoots False))) = [''A'', ''B'', ''C''] \<and>
     map depth (nodes (snd (computeLayout flatLayout exampleVisual twoRoots False))) = [0, 0, 1]"
    unfolding computeLayout_def Let_def twoRoots_stratify
    using r by (simp add: exampleVisual_def toLayoutNode_def mkRow_def synthetic_def syntheticRootId_def)
  have b: "mkRow ''B'' None \<in> set (rootsOf twoRoots)"
    by (simp add: twoRoots_def rootsOf_def mkRow_def truthy_def)
  have id: "rowId (mkRow ''B'' None) = ''B''" by (simp add: mkRow_def)
  from synthetic_root_transparent [OF h, of flatLayout exampleVisual False] ok b
  have "syntheticRootId \<notin> lnId ` set (nodes (snd (computeLayout flatLayout exampleVisual twoRoots False))) \<and>
   (\<exists>n. n \<in> set (nodes (snd (computeLayout flatLayout exampleVisual twoRoots False))) \<and>
        lnId n = rowId (mkRow ''B'' None) \<and> depth n = 0)"
    by blast
  then show ?thesis using h ok b unfolding id by blast
qed

end
